theory Spec2Isabelle
  imports Main
begin

section \<open>The key-value store of key\_value\_store\_base.cc\<close>

text \<open>
  The store maps string keys to string values (an \<^verbatim>\<open>absl::flat_hash_map\<close>). A byte
  view (\<^verbatim>\<open>absl::string_view\<close>) is the list of the bytes it still covers: removing a
  prefix of the view drops the first bytes of the list. Sizes are \<^verbatim>\<open>size_t\<close> values and
  the model counts them in \<open>nat\<close>: the only arithmetic on a size is \<^verbatim>\<open>it + 1\<close> for an
  index \<^verbatim>\<open>it\<close> inside the view, which cannot wrap around, and the number parser, whose
  overflow checks are written out.
\<close>

type_synonym store = "string \<rightharpoonup> string"

definition newline :: char where
  "newline = CHR 0x0A"

subsection \<open>The number parser\<close>

text \<open>
  Modelled from the spec: \<^verbatim>\<open>absl::SimpleAtoi\<close> is the parsing library's function and
  none of its code is part of the sources; the spec leaves the accepted strings to
  ``the parsing library's semantics''. The definitions follow the library's contract for
  an unsigned 64-bit result: ASCII whitespace around the number is skipped, one sign
  character may precede the digits (a minus sign makes the parse of an unsigned value
  fail), at least one character must follow the sign, every further character must be a
  decimal digit, and a value above \<open>2\<^sup>6\<^sup>4 - 1\<close> makes the parse fail. The digit loop keeps
  the library's two overflow checks, made before the multiplication and before the
  addition.
\<close>

definition ascii_isspace :: "char \<Rightarrow> bool" where
  "ascii_isspace c \<longleftrightarrow>
     c = CHR '' '' \<or> c = CHR 0x09 \<or> c = CHR 0x0A \<or> c = CHR 0x0B \<or> c = CHR 0x0C \<or> c = CHR 0x0D"

definition ascii_isdigit :: "char \<Rightarrow> bool" where
  "ascii_isdigit c \<longleftrightarrow> 48 \<le> (of_char c :: nat) \<and> (of_char c :: nat) \<le> 57"

definition digit_value :: "char \<Rightarrow> nat" where
  "digit_value c = of_char c - 48"

definition vmax :: nat where
  "vmax = 2 ^ 64 - 1"

fun safe_parse_positive_int :: "nat \<Rightarrow> string \<Rightarrow> nat option" where
  "safe_parse_positive_int v [] = Some v"
| "safe_parse_positive_int v (c # cs) =
     (if \<not> ascii_isdigit c then None
      else if v > vmax div 10 then None
      else if v * 10 > vmax - digit_value c then None
      else safe_parse_positive_int (v * 10 + digit_value c) cs)"

definition strip_whitespace :: "string \<Rightarrow> string" where
  "strip_whitespace s = rev (dropWhile ascii_isspace (rev (dropWhile ascii_isspace s)))"

definition SimpleAtoi :: "string \<Rightarrow> nat option" where
  "SimpleAtoi s =
     (case strip_whitespace s of
        [] \<Rightarrow> None
      | c # cs \<Rightarrow>
          if c = CHR ''-'' then None
          else if c = CHR ''+'' then (if cs = [] then None else safe_parse_positive_int 0 cs)
          else safe_parse_positive_int 0 (c # cs))"

subsection \<open>The token reader\<close>

text \<open>
  \<^verbatim>\<open>contents.find("\n")\<close>: the index of the first newline, \<open>None\<close> for \<^verbatim>\<open>npos\<close>.
\<close>

fun find_newline :: "string \<Rightarrow> nat option" where
  "find_newline [] = None"
| "find_newline (c # cs) =
     (if c = newline then Some 0
      else case find_newline cs of None \<Rightarrow> None | Some i \<Rightarrow> Some (Suc i))"

text \<open>
  \<^verbatim>\<open>getToken(contents, error)\<close> takes the view and the error string by reference. The
  model returns the optional token together with the view and the error string as the
  call leaves them. The view is advanced past the newline before the remaining size is
  compared with the length, as in the source.
\<close>

definition getToken :: "string \<Rightarrow> string \<Rightarrow> string option \<times> string \<times> string" where
  "getToken contents error =
     (case find_newline contents of
        None \<Rightarrow> (None, contents, ''Bad file: no newline'')
      | Some it \<Rightarrow>
          (case SimpleAtoi (take it contents) of
             None \<Rightarrow> (None, contents, ''Bad file: no length'')
           | Some len \<Rightarrow>
               (let contents1 = drop (it + 1) contents in
                if length contents1 < len
                then (None, contents1, ''Bad file: insufficient contents'')
                else (Some (take len contents1), drop len contents1, error))))"

subsection \<open>The contents parser\<close>

text \<open>
  \<^verbatim>\<open>store.emplace(key, value)\<close> of a hash map inserts the pair only when the map has no
  entry for the key; an existing entry is left as it is.
\<close>

definition emplace :: "string \<Rightarrow> string \<Rightarrow> store \<Rightarrow> store" where
  "emplace key val store = (case store key of None \<Rightarrow> store(key \<mapsto> val) | Some _ \<Rightarrow> store)"

text \<open>
  Two facts the termination proof of the parse loop needs: the index of the newline lies
  inside the view, so a returned token takes at least the newline off the view.
\<close>

lemma find_newline_less: "find_newline cs = Some i \<Longrightarrow> i < length cs"
  by (induction cs arbitrary: i) (auto split: if_splits option.splits)

lemma getToken_shrinks:
  assumes "getToken contents error = (Some token, rest, error')"
  shows "length rest < length contents"
  using assms
  by (auto simp: getToken_def Let_def split: option.splits if_splits
      dest: find_newline_less)

text \<open>
  The loop of \<^verbatim>\<open>parseContents\<close>, with the local error string and the store passed along.
  The result is the returned flag, the store as the call leaves it and the warnings
  logged (\<^verbatim>\<open>ENVOY_LOG(warn, error)\<close>).
\<close>

function parseContents_loop :: "string \<Rightarrow> string \<Rightarrow> store \<Rightarrow> bool \<times> store \<times> string list" where
  "parseContents_loop contents error store =
     (if contents = [] then (True, store, [])
      else
        (case getToken contents error of
           (None, contents1, error1) \<Rightarrow> (False, store, [error1])
         | (Some key, contents1, error1) \<Rightarrow>
             (case getToken contents1 error1 of
                (None, contents2, error2) \<Rightarrow> (False, store, [error2])
              | (Some val, contents2, error2) \<Rightarrow>
                  parseContents_loop contents2 error2 (emplace key val store))))"
  by pat_completeness auto
termination
proof (relation "measure (\<lambda>(contents, error, store). length contents)", goal_cases)
  case 1
  show ?case by simp
next
  case 2
  then show ?case
    by (auto dest!: getToken_shrinks [OF sym])
qed

declare parseContents_loop.simps [simp del]

definition parseContents :: "string \<Rightarrow> store \<Rightarrow> bool \<times> store \<times> string list" where
  "parseContents contents store = parseContents_loop contents [] store"

text \<open>
  The same loop with a bound on the number of times its condition is tested: \<open>None\<close>
  when the bound is used up before the loop has returned.
\<close>

fun parseContents_fuel ::
  "nat \<Rightarrow> string \<Rightarrow> string \<Rightarrow> store \<Rightarrow> (bool \<times> store \<times> string list) option" where
  "parseContents_fuel 0 contents error store = None"
| "parseContents_fuel (Suc n) contents error store =
     (if contents = [] then Some (True, store, [])
      else
        (case getToken contents error of
           (None, contents1, error1) \<Rightarrow> Some (False, store, [error1])
         | (Some key, contents1, error1) \<Rightarrow>
             (case getToken contents1 error1 of
                (None, contents2, error2) \<Rightarrow> Some (False, store, [error2])
              | (Some val, contents2, error2) \<Rightarrow>
                  parseContents_fuel n contents2 error2 (emplace key val store))))"

text \<open>
  The store after a run of \<^verbatim>\<open>emplace\<close> calls, one for each pair of a list, in order.
\<close>

definition emplace_all :: "(string \<times> string) list \<Rightarrow> store \<Rightarrow> store" where
  "emplace_all kvs st = foldl (\<lambda>st (k, v). emplace k v st) st kvs"

subsection \<open>The wire format\<close>

text \<open>
  A token on the wire is a header, a newline and a payload; the header holds no newline
  and the number parser reads the payload's length from it. A buffer that decodes as an
  alternating sequence of key tokens and value tokens is the concatenation of such
  tokens, two for each pair.
\<close>

type_synonym frame = "string \<times> string"

definition frame_bytes :: "frame \<Rightarrow> string" where
  "frame_bytes f = fst f @ newline # snd f"

definition valid_frame :: "frame \<Rightarrow> bool" where
  "valid_frame f \<longleftrightarrow> newline \<notin> set (fst f) \<and> SimpleAtoi (fst f) = Some (length (snd f))"

definition wire :: "(frame \<times> frame) list \<Rightarrow> string" where
  "wire fps = concat (map (\<lambda>(kf, vf). frame_bytes kf @ frame_bytes vf) fps)"

definition pairs_of :: "(frame \<times> frame) list \<Rightarrow> (string \<times> string) list" where
  "pairs_of fps = map (\<lambda>(kf, vf). (snd kf, snd vf)) fps"

text \<open>
  The substring of a view before its first newline and the bytes after that newline (the
  whole view and nothing when the view has no newline).
\<close>

definition header_of :: "string \<Rightarrow> string" where
  "header_of contents = takeWhile (\<lambda>c. c \<noteq> newline) contents"

definition after_newline :: "string \<Rightarrow> string" where
  "after_newline contents = tl (dropWhile (\<lambda>c. c \<noteq> newline) contents)"

text \<open>
  A truncated token is a proper prefix of the bytes of a token.
\<close>

definition proper_prefix :: "string \<Rightarrow> string \<Rightarrow> bool" where
  "proper_prefix t full \<longleftrightarrow> length t < length full \<and> t = take (length t) full"

text \<open>
  Modelled from the spec: the serializer is the flush action of a derived class and is
  not part of the sources. The spec's wire format writes, for each pair, the decimal
  length of the key, a newline, the key, the decimal length of the value, a newline and
  the value. \<open>decimal\<close> is the usual decimal numeral, without sign, spaces or leading
  zeros.
\<close>

fun decimal :: "nat \<Rightarrow> string" where
  "decimal n =
     (if n < 10 then [char_of (48 + n)]
      else decimal (n div 10) @ [char_of (48 + n mod 10)])"

declare decimal.simps [simp del]

definition serialize :: "(string \<times> string) list \<Rightarrow> string" where
  "serialize kvs =
     concat (map (\<lambda>(k, v). decimal (length k) @ newline # k @ decimal (length v) @ newline # v) kvs)"

text \<open>
  A list of pairs enumerates a mapping when it holds each entry of the mapping once, in
  any order.
\<close>

definition enumerates :: "(string \<times> string) list \<Rightarrow> store \<Rightarrow> bool" where
  "enumerates kvs m \<longleftrightarrow> distinct (map fst kvs) \<and> map_of kvs = m"

text \<open>
  The length field as the wire format describes it, to compare the number parser with:
  the decimal value of a non-empty run of digits that is below \<open>2\<^sup>6\<^sup>4\<close>, the run being
  allowed surrounding whitespace and a leading plus sign as the parsing library allows
  them.
\<close>

definition dec_val :: "string \<Rightarrow> nat" where
  "dec_val ds = foldl (\<lambda>v c. v * 10 + digit_value c) 0 ds"

definition decimal_length :: "string \<Rightarrow> nat option" where
  "decimal_length s =
     (let t = strip_whitespace s;
          ds = (if t \<noteq> [] \<and> hd t = CHR ''+'' then tl t else t)
      in if ds \<noteq> [] \<and> list_all ascii_isdigit ds \<and> dec_val ds < 2 ^ 64
         then Some (dec_val ds) else None)"

subsection \<open>The store and the flush timer\<close>

text \<open>
  Modelled from the spec: the timer (\<^verbatim>\<open>Event::Timer\<close>) and the flush action (pure virtual in
  this class) are external collaborators without code in the sources. The timer is
  either disabled or pending with a duration: \<^verbatim>\<open>enableTimer(d)\<close> makes it pending,
  \<^verbatim>\<open>enabled()\<close> tells whether it is pending, and a pending timer that fires is no longer
  pending while its callback runs. The flush action requests that the current mapping be
  written; the model records each request with the mapping at that moment and changes
  nothing else.
\<close>

record KeyValueStoreBase =
  store_map :: store
  flush_timer :: "int option"
  flush_interval :: int
  flushed :: "store list"

definition enableTimer :: "int \<Rightarrow> int option \<Rightarrow> int option" where
  "enableTimer d t = Some d"

definition enabled :: "int option \<Rightarrow> bool" where
  "enabled t \<longleftrightarrow> t \<noteq> None"

definition flush :: "KeyValueStoreBase \<Rightarrow> KeyValueStoreBase" where
  "flush s = s\<lparr>flushed := flushed s @ [store_map s]\<rparr>"

text \<open>
  The constructor creates the timer with its callback and enables it when the interval's
  count is positive. The callback captures the interval, kept in the field
  \<open>flush_interval\<close>.
\<close>

definition timer_callback :: "KeyValueStoreBase \<Rightarrow> KeyValueStoreBase" where
  "timer_callback s =
     (let s1 = flush s
      in s1\<lparr>flush_timer := enableTimer (flush_interval s1) (flush_timer s1)\<rparr>)"

definition new_KeyValueStoreBase :: "int \<Rightarrow> KeyValueStoreBase" where
  "new_KeyValueStoreBase interval =
     (let s = \<lparr>store_map = Map.empty, flush_timer = None, flush_interval = interval,
                flushed = []\<rparr>
      in if interval > 0 then s\<lparr>flush_timer := enableTimer interval (flush_timer s)\<rparr> else s)"

definition addOrUpdate :: "string \<Rightarrow> string \<Rightarrow> KeyValueStoreBase \<Rightarrow> KeyValueStoreBase" where
  "addOrUpdate key val s =
     (let s1 = s\<lparr>store_map := (store_map s)(key \<mapsto> val)\<rparr>
      in if \<not> enabled (flush_timer s1) then flush s1 else s1)"

definition remove :: "string \<Rightarrow> KeyValueStoreBase \<Rightarrow> KeyValueStoreBase" where
  "remove key s =
     (let s1 = s\<lparr>store_map := (store_map s)(key := None)\<rparr>
      in if \<not> enabled (flush_timer s1) then flush s1 else s1)"

definition get :: "string \<Rightarrow> KeyValueStoreBase \<Rightarrow> string option" where
  "get key s = store_map s key"

text \<open>
  The timer fires only while it is pending; the event leaves a store with a disabled
  timer as it is.
\<close>

definition timer_fires :: "KeyValueStoreBase \<Rightarrow> KeyValueStoreBase" where
  "timer_fires s =
     (if enabled (flush_timer s) then timer_callback (s\<lparr>flush_timer := None\<rparr>) else s)"

datatype event = AddOrUpdate string string | Remove string | TimerFires

fun step :: "event \<Rightarrow> KeyValueStoreBase \<Rightarrow> KeyValueStoreBase" where
  "step (AddOrUpdate key val) s = addOrUpdate key val s"
| "step (Remove key) s = remove key s"
| "step TimerFires s = timer_fires s"

definition run :: "event list \<Rightarrow> KeyValueStoreBase \<Rightarrow> KeyValueStoreBase" where
  "run evs s = foldl (\<lambda>s ev. step ev s) s evs"

subsection \<open>Iteration\<close>

text \<open>
  \<^verbatim>\<open>iterate(cb)\<close> walks the hash map in the order of its iterator, which the list of
  entries stands for. The callback gets a key and a value by constant reference; what it
  does besides returning is a change of a state of its own. The comparison with a copy
  of the store, compiled in debug builds only, is left out: in the model the callback has
  no access to the store.
\<close>

datatype Iterate = Continue | Break

fun iterate :: "(string \<Rightarrow> string \<Rightarrow> 'a \<Rightarrow> Iterate \<times> 'a) \<Rightarrow> (string \<times> string) list \<Rightarrow> 'a \<Rightarrow> 'a" where
  "iterate cb [] a = a"
| "iterate cb ((key, val) # es) a =
     (case cb key val a of
        (Break, a') \<Rightarrow> a'
      | (Continue, a') \<Rightarrow> iterate cb es a')"

text \<open>
  A callback that also notes each entry it is called with, in the order of the calls.
\<close>

definition noting ::
  "(string \<Rightarrow> string \<Rightarrow> 'a \<Rightarrow> Iterate \<times> 'a) \<Rightarrow>
   string \<Rightarrow> string \<Rightarrow> 'a \<times> (string \<times> string) list \<Rightarrow> Iterate \<times> 'a \<times> (string \<times> string) list" where
  "noting cb key val st =
     (case cb key val (fst st) of (r, a') \<Rightarrow> (r, a', snd st @ [(key, val)]))"

definition visited ::
  "(string \<Rightarrow> string \<Rightarrow> 'a \<Rightarrow> Iterate \<times> 'a) \<Rightarrow> (string \<times> string) list \<Rightarrow> 'a \<Rightarrow> (string \<times> string) list" where
  "visited cb es a = snd (iterate (noting cb) es (a, []))"

text \<open>
  What the callback returns, call by call, when it is called with every entry of a list
  in order, and its state after those calls. Neither depends on \<open>iterate\<close>.
\<close>

fun answers :: "(string \<Rightarrow> string \<Rightarrow> 'a \<Rightarrow> Iterate \<times> 'a) \<Rightarrow> (string \<times> string) list \<Rightarrow> 'a \<Rightarrow> Iterate list" where
  "answers cb [] a = []"
| "answers cb ((key, val) # es) a = fst (cb key val a) # answers cb es (snd (cb key val a))"

definition cb_run :: "(string \<Rightarrow> string \<Rightarrow> 'a \<Rightarrow> Iterate \<times> 'a) \<Rightarrow> (string \<times> string) list \<Rightarrow> 'a \<Rightarrow> 'a" where
  "cb_run cb es a = foldl (\<lambda>a (key, val). snd (cb key val a)) a es"

section \<open>Auxiliary lemmas\<close>

subsection \<open>The number parser and the token reader\<close>

text \<open>
  The index of the first newline splits the view into the substring before the newline
  and the bytes after it.
\<close>

lemma find_newline_None: "find_newline cs = None \<longleftrightarrow> newline \<notin> set cs"
  by (induction cs) (auto split: option.splits)

lemma find_newline_append:
  "newline \<notin> set hdr \<Longrightarrow> find_newline (hdr @ newline # rest) = Some (length hdr)"
  by (induction hdr) auto

lemma find_newline_Some:
  "find_newline cs = Some i \<Longrightarrow>
     take i cs = takeWhile (\<lambda>c. c \<noteq> newline) cs \<and>
     drop (Suc i) cs = tl (dropWhile (\<lambda>c. c \<noteq> newline) cs)"
  by (induction cs arbitrary: i) (auto split: if_splits option.splits)

text \<open>
  The digit loop with its two overflow checks computes the decimal value of a run of
  digits exactly when that value fits 64 bits, so the number parser agrees with the
  length field of the wire format.
\<close>

lemma safe_parse_positive_int_eq:
  "v \<le> vmax \<Longrightarrow>
   safe_parse_positive_int v ds =
     (if list_all ascii_isdigit ds \<and> foldl (\<lambda>v c. v * 10 + digit_value c) v ds \<le> vmax
      then Some (foldl (\<lambda>v c. v * 10 + digit_value c) v ds) else None)"
proof (induction ds arbitrary: v)
  case Nil
  then show ?case by simp
next
  case (Cons c ds)
  have mono: "\<And>w. w \<le> foldl (\<lambda>v c. v * 10 + digit_value c) w ds"
  proof (induction ds)
    case Nil
    show ?case by simp
  next
    case (Cons d ds)
    have "w \<le> w * 10 + digit_value d" by simp
    also have "\<dots> \<le> foldl (\<lambda>v c. v * 10 + digit_value c) (w * 10 + digit_value d) ds"
      by (rule Cons)
    finally show ?case by simp
  qed
  show ?case
  proof (cases "ascii_isdigit c")
    case False
    then show ?thesis by simp
  next
    case True
    show ?thesis
    proof (cases "v * 10 + digit_value c \<le> vmax")
      case le: True
      then have "\<not> v > vmax div 10" "\<not> v * 10 > vmax - digit_value c"
        unfolding vmax_def by simp_all
      with True le Cons.IH [OF le] show ?thesis by simp
    next
      case gt: False
      have "\<not> foldl (\<lambda>v c. v * 10 + digit_value c) (v * 10 + digit_value c) ds \<le> vmax"
        using gt mono [of "v * 10 + digit_value c"] by linarith
      moreover have "digit_value c \<le> 9"
        using True unfolding ascii_isdigit_def digit_value_def by arith
      then have "v > vmax div 10 \<or> v * 10 > vmax - digit_value c"
        using gt unfolding vmax_def by simp arith
      ultimately show ?thesis using True by auto
    qed
  qed
qed

lemma SimpleAtoi_decimal_length: "SimpleAtoi s = decimal_length s"
proof (cases "strip_whitespace s")
  case Nil
  then show ?thesis by (simp add: SimpleAtoi_def decimal_length_def)
next
  case (Cons c cs)
  have z: "(0::nat) \<le> vmax" by simp
  have v: "\<And>n::nat. n \<le> vmax \<longleftrightarrow> n < 2 ^ 64" unfolding vmax_def by simp arith
  have nd: "\<not> ascii_isdigit CHR ''-''" by (simp add: ascii_isdigit_def)
  show ?thesis
    using Cons nd
    by (auto simp: SimpleAtoi_def decimal_length_def Let_def dec_val_def v
        safe_parse_positive_int_eq [OF z] simp del: safe_parse_positive_int.simps)
qed

text \<open>
  The decimal numeral of a number is a non-empty run of digits with that number as its
  value, so the parser reads back every length below \<open>2\<^sup>6\<^sup>4\<close>.
\<close>

lemma digit_char: "n < 10 \<Longrightarrow> ascii_isdigit (char_of (48 + n)) \<and> digit_value (char_of (48 + n)) = n"
  by (simp add: ascii_isdigit_def digit_value_def)

lemma decimal_digits: "list_all ascii_isdigit (decimal n)"
proof (induction n rule: decimal.induct)
  case (1 n)
  show ?case
  proof (cases "n < 10")
    case True
    then show ?thesis by (subst decimal.simps) (simp add: digit_char)
  next
    case False
    have "n mod 10 < 10" by simp
    with False 1 show ?thesis by (subst decimal.simps) (simp add: digit_char)
  qed
qed

lemma decimal_not_Nil: "decimal n \<noteq> []"
  by (subst decimal.simps) simp

lemma dec_val_decimal: "dec_val (decimal n) = n"
proof (induction n rule: decimal.induct)
  case (1 n)
  show ?case
  proof (cases "n < 10")
    case True
    then show ?thesis by (subst decimal.simps) (simp add: dec_val_def digit_char)
  next
    case False
    have "n mod 10 < 10" by simp
    then have "digit_value (char_of (48 + n mod 10)) = n mod 10" by (simp add: digit_char)
    with False 1 show ?thesis by (subst decimal.simps) (simp add: dec_val_def)
  qed
qed

lemma digit_plain:
  "ascii_isdigit c \<Longrightarrow> \<not> ascii_isspace c \<and> c \<noteq> CHR ''+'' \<and> c \<noteq> CHR ''-'' \<and> c \<noteq> newline"
  by (auto simp: ascii_isdigit_def ascii_isspace_def newline_def)

lemma strip_whitespace_digits:
  assumes "list_all ascii_isdigit ds"
  shows "strip_whitespace ds = ds"
proof (cases "ds = []")
  case True
  then show ?thesis by (simp add: strip_whitespace_def)
next
  case False
  with assms have "\<not> ascii_isspace (hd ds)" "\<not> ascii_isspace (last ds)"
    by (auto simp: list_all_iff digit_plain)
  then have "dropWhile ascii_isspace ds = ds" "dropWhile ascii_isspace (rev ds) = rev ds"
    using False by (auto simp: dropWhile_eq_self_iff hd_rev)
  then show ?thesis by (simp add: strip_whitespace_def)
qed

lemma decimal_length_decimal:
  "decimal_length (decimal n) = (if n < 2 ^ 64 then Some n else None)"
proof -
  have "hd (decimal n) \<noteq> CHR ''+''"
    using decimal_digits [of n] decimal_not_Nil [of n]
    by (cases "decimal n") (auto simp: digit_plain)
  then show ?thesis
    by (simp add: decimal_length_def strip_whitespace_digits decimal_digits decimal_not_Nil
        dec_val_decimal)
qed

lemma decimal_no_newline: "newline \<notin> set (decimal n)"
  using decimal_digits [of n] by (auto simp: list_all_iff dest: digit_plain)

lemma valid_frame_decimal: "length t < 2 ^ 64 \<Longrightarrow> valid_frame (decimal (length t), t)"
  by (simp add: valid_frame_def decimal_no_newline SimpleAtoi_decimal_length decimal_length_decimal)

lemma getToken_frame:
  assumes "valid_frame f"
  shows "getToken (frame_bytes f @ rest) error = (Some (snd f), rest, error)"
  using assms
  by (simp add: getToken_def frame_bytes_def valid_frame_def find_newline_append)

subsection \<open>The parse loop\<close>

lemma parseContents_loop_Nil: "parseContents_loop [] error st = (True, st, [])"
  by (subst parseContents_loop.simps) simp

lemma parseContents_loop_step:
  "contents \<noteq> [] \<Longrightarrow>
   parseContents_loop contents error st =
     (case getToken contents error of
        (None, contents1, error1) \<Rightarrow> (False, st, [error1])
      | (Some key, contents1, error1) \<Rightarrow>
          (case getToken contents1 error1 of
             (None, contents2, error2) \<Rightarrow> (False, st, [error2])
           | (Some val, contents2, error2) \<Rightarrow>
               parseContents_loop contents2 error2 (emplace key val st)))"
  by (subst parseContents_loop.simps) (simp only: if_False)

lemma parseContents_loop_pair:
  assumes "valid_frame kf" "valid_frame vf"
  shows "parseContents_loop (frame_bytes kf @ frame_bytes vf @ rest) error st =
         parseContents_loop rest error (emplace (snd kf) (snd vf) st)"
proof -
  have "frame_bytes kf @ frame_bytes vf @ rest \<noteq> []"
    by (simp add: frame_bytes_def)
  from parseContents_loop_step [OF this] assms show ?thesis
    by (simp add: getToken_frame)
qed

lemma emplace_all_eq:
  "emplace_all kvs st = (\<lambda>k. case st k of Some v \<Rightarrow> Some v | None \<Rightarrow> map_of kvs k)"
proof (induction kvs arbitrary: st)
  case Nil
  show ?case by (auto simp: emplace_all_def split: option.splits)
next
  case (Cons kv kvs)
  obtain k v where kv: "kv = (k, v)" by (cases kv)
  have "emplace_all (kv # kvs) st = emplace_all kvs (emplace k v st)"
    by (simp add: emplace_all_def kv)
  also have "\<dots> = (\<lambda>k'. case emplace k v st k' of Some v \<Rightarrow> Some v | None \<Rightarrow> map_of kvs k')"
    by (rule Cons.IH)
  also have "\<dots> = (\<lambda>k'. case st k' of Some v \<Rightarrow> Some v | None \<Rightarrow> map_of (kv # kvs) k')"
    by (rule ext) (auto simp: emplace_def kv split: option.splits)
  finally show ?case .
qed

lemma parseContents_loop_wire:
  assumes "list_all (\<lambda>(kf, vf). valid_frame kf \<and> valid_frame vf) fps"
  shows "parseContents_loop (wire fps @ rest) error st =
         parseContents_loop rest error (emplace_all (pairs_of fps) st)"
  using assms
proof (induction fps arbitrary: st)
  case Nil
  show ?case by (simp add: wire_def pairs_of_def emplace_all_def)
next
  case (Cons fp fps)
  obtain kf vf where fp: "fp = (kf, vf)" by (cases fp)
  from Cons.prems fp have v: "valid_frame kf" "valid_frame vf"
    and r: "list_all (\<lambda>(kf, vf). valid_frame kf \<and> valid_frame vf) fps" by auto
  have "wire (fp # fps) @ rest = frame_bytes kf @ frame_bytes vf @ (wire fps @ rest)"
    by (simp add: wire_def fp)
  then have "parseContents_loop (wire (fp # fps) @ rest) error st =
      parseContents_loop (wire fps @ rest) error (emplace (snd kf) (snd vf) st)"
    by (simp add: parseContents_loop_pair [OF v])
  also have "\<dots> = parseContents_loop rest error (emplace_all (pairs_of fps) (emplace (snd kf) (snd vf) st))"
    by (rule Cons.IH [OF r])
  also have "emplace_all (pairs_of fps) (emplace (snd kf) (snd vf) st) = emplace_all (pairs_of (fp # fps)) st"
    by (simp add: emplace_all_def pairs_of_def fp)
  finally show ?case .
qed

subsection \<open>Evaluation on concrete buffers\<close>

lemmas eval_defs = getToken_def SimpleAtoi_def strip_whitespace_def ascii_isspace_def
  ascii_isdigit_def digit_value_def vmax_def newline_def

lemmas parse_eval = parseContents_loop_step parseContents_loop_Nil emplace_def

section \<open>The claims\<close>

subsection \<open>The example buffers\<close>

text \<open>
  C8. Parsing the buffer \<^verbatim>\<open>"1\nA1\nB2\nCD3\nEFG"\<close> into an empty store succeeds and
  yields exactly the mapping of \<open>A\<close> to \<open>B\<close> and of \<open>CD\<close> to \<open>EFG\<close>, and parsing the
  empty buffer succeeds and yields the empty mapping. Nothing is logged in either case.
\<close>

theorem parseContents_example:
  "parseContents ''1\<newline>A1\<newline>B2\<newline>CD3\<newline>EFG'' Map.empty =
     (True, [''A'' \<mapsto> ''B'', ''CD'' \<mapsto> ''EFG''], []) \<and>
   parseContents [] Map.empty = (True, Map.empty, [])"
  by (simp add: parseContents_def parse_eval eval_defs)

subsection \<open>Pairs with the same key\<close>

text \<open>
  C1, as the spec states it, fails: \<^verbatim>\<open>emplace\<close> does not overwrite. The buffer
  \<^verbatim>\<open>"1\nA1\nB1\nA1\nC"\<close> holds the pairs \<open>(A, B)\<close> and \<open>(A, C)\<close>; parsing it succeeds
  and the store maps \<open>A\<close> to \<open>B\<close>, the value of the earlier pair, not to \<open>C\<close>.
\<close>

theorem parseContents_overwrite_counterexample:
  "fst (parseContents ''1\<newline>A1\<newline>B1\<newline>A1\<newline>C'' Map.empty) \<and>
   fst (snd (parseContents ''1\<newline>A1\<newline>B1\<newline>A1\<newline>C'' Map.empty)) ''A'' = Some ''B'' \<and>
   fst (snd (parseContents ''1\<newline>A1\<newline>B1\<newline>A1\<newline>C'' Map.empty)) ''A'' \<noteq> Some ''C''"
  by (simp add: parseContents_def parse_eval eval_defs)

lemma map_of_first:
  "k \<notin> fst ` set pre \<Longrightarrow> map_of (pre @ (k, v) # post) k = Some v"
  by (induction pre) auto

text \<open>
  C1, amended. For every buffer that decodes as an alternating sequence of key tokens and
  value tokens, \<^verbatim>\<open>parseContents\<close> succeeds, logs nothing and leaves in the target mapping,
  for each key, the value the target had for it before the call and otherwise the value
  of the first pair of the buffer with that key (\<open>map_of\<close> finds the first pair). So
  when two pairs share a key that the target did not hold, the mapping holds the value
  of the earlier pair.
\<close>

theorem parseContents_keeps_first:
  assumes "list_all (\<lambda>(kf, vf). valid_frame kf \<and> valid_frame vf) fps"
  shows "parseContents (wire fps) st =
           (True, (\<lambda>k. case st k of Some v \<Rightarrow> Some v | None \<Rightarrow> map_of (pairs_of fps) k), []) \<and>
         (\<forall>k v1 v2 pre mid post.
            pairs_of fps = pre @ (k, v1) # mid @ (k, v2) # post \<and> k \<notin> fst ` set pre \<and> st k = None
            \<longrightarrow> fst (snd (parseContents (wire fps) st)) k = Some v1)"
proof -
  have "parseContents (wire fps) st = parseContents_loop (wire fps @ []) [] st"
    by (simp add: parseContents_def)
  also have "\<dots> = parseContents_loop [] [] (emplace_all (pairs_of fps) st)"
    by (rule parseContents_loop_wire [OF assms])
  finally have eq: "parseContents (wire fps) st =
      (True, (\<lambda>k. case st k of Some v \<Rightarrow> Some v | None \<Rightarrow> map_of (pairs_of fps) k), [])"
    by (simp add: parseContents_loop_Nil emplace_all_eq)
  have "fst (snd (parseContents (wire fps) st)) k = Some v1"
    if "pairs_of fps = pre @ (k, v1) # mid @ (k, v2) # post \<and> k \<notin> fst ` set pre \<and> st k = None"
    for k v1 v2 pre mid post
  proof -
    from that have "k \<notin> fst ` set pre" by simp
    then have "map_of (pre @ (k, v1) # mid @ (k, v2) # post) k = Some v1"
      by (rule map_of_first)
    with that have "map_of (pairs_of fps) k = Some v1"
      by (simp only:)
    with that show ?thesis by (simp add: eq)
  qed
  with eq show ?thesis by blast
qed

theorem parseContents_keeps_first_witness:
  "list_all (\<lambda>(kf, vf). valid_frame kf \<and> valid_frame vf)
     [((''1'', ''A''), (''1'', ''B'')), ((''1'', ''A''), (''1'', ''C''))] \<and>
   wire [((''1'', ''A''), (''1'', ''B'')), ((''1'', ''A''), (''1'', ''C''))] =
     ''1\<newline>A1\<newline>B1\<newline>A1\<newline>C'' \<and>
   pairs_of [((''1'', ''A''), (''1'', ''B'')), ((''1'', ''A''), (''1'', ''C''))] =
     [] @ (''A'', ''B'') # [] @ (''A'', ''C'') # [] \<and>
   parseContents ''1\<newline>A1\<newline>B1\<newline>A1\<newline>C'' Map.empty = (True, [''A'' \<mapsto> ''B''], []) \<and>
   fst (snd (parseContents ''1\<newline>A1\<newline>B1\<newline>A1\<newline>C'' Map.empty)) ''A'' = Some ''B''"
proof -
  have v: "list_all (\<lambda>(kf, vf). valid_frame kf \<and> valid_frame vf)
     [((''1'', ''A''), (''1'', ''B'')), ((''1'', ''A''), (''1'', ''C''))]"
    by (simp add: valid_frame_def eval_defs)
  have w: "wire [((''1'', ''A''), (''1'', ''B'')), ((''1'', ''A''), (''1'', ''C''))] =
     ''1\<newline>A1\<newline>B1\<newline>A1\<newline>C''"
    by (simp add: wire_def frame_bytes_def newline_def)
  have p: "pairs_of [((''1'', ''A''), (''1'', ''B'')), ((''1'', ''A''), (''1'', ''C''))] =
     [] @ (''A'', ''B'') # [] @ (''A'', ''C'') # []"
    by (simp add: pairs_of_def)
  have m: "(\<lambda>k. case Map.empty k of Some v \<Rightarrow> Some v
       | None \<Rightarrow> map_of (pairs_of [((''1'', ''A''), (''1'', ''B'')), ((''1'', ''A''), (''1'', ''C''))]) k)
     = [''A'' \<mapsto> ''B'']"
    by (rule ext) (simp add: pairs_of_def)
  note t = parseContents_keeps_first [OF v, of Map.empty, unfolded w]
  from t have 1: "parseContents ''1\<newline>A1\<newline>B1\<newline>A1\<newline>C'' Map.empty = (True, [''A'' \<mapsto> ''B''], [])"
    unfolding m by blast
  have "''A'' \<notin> fst ` set ([]::(string \<times> string) list) \<and> (Map.empty::store) ''A'' = None"
    by simp
  with t p have 2: "fst (snd (parseContents ''1\<newline>A1\<newline>B1\<newline>A1\<newline>C'' Map.empty)) ''A'' = Some ''B''"
    by blast
  from v w p 1 2 show ?thesis by (intro conjI)
qed

subsection \<open>The view after a call of the token reader\<close>

lemma find_newline_split:
  "find_newline cs = Some i \<Longrightarrow>
     \<exists>hdr body. cs = hdr @ newline # body \<and> newline \<notin> set hdr \<and> i = length hdr"
proof (induction cs arbitrary: i)
  case Nil
  then show ?case by simp
next
  case (Cons c cs)
  show ?case
  proof (cases "c = newline")
    case True
    with Cons.prems have "c # cs = [] @ newline # cs \<and> newline \<notin> set [] \<and> i = length ([]::string)"
      by simp
    then show ?thesis by blast
  next
    case False
    with Cons.prems obtain j where j: "find_newline cs = Some j" "i = Suc j"
      by (auto split: option.splits)
    from Cons.IH [OF j(1)] obtain hdr body
      where "cs = hdr @ newline # body" "newline \<notin> set hdr" "j = length hdr" by blast
    with False j have "c # cs = (c # hdr) @ newline # body \<and> newline \<notin> set (c # hdr)
        \<and> i = length (c # hdr)" by simp
    then show ?thesis by blast
  qed
qed

text \<open>
  C2, as the spec states it, fails: the view is advanced past the newline before the
  remaining size is compared with the length. On \<^verbatim>\<open>"5\nab"\<close> the call fails with
  ``insufficient contents'' and leaves the view at \<^verbatim>\<open>"ab"\<close>, past the length and the
  newline of a token that it did not return.
\<close>

theorem getToken_view_counterexample:
  "getToken ''5\<newline>ab'' [] = (None, ''ab'', ''Bad file: insufficient contents'') \<and>
   fst (snd (getToken ''5\<newline>ab'' [])) \<noteq> ''5\<newline>ab''"
  by (simp add: eval_defs)

text \<open>
  C2, amended. A call of \<^verbatim>\<open>getToken\<close> yields the optional token, the view and the error
  string, and nothing else. On success the error string is unchanged and the view has
  been advanced exactly past a header that holds no newline and parses to the length of
  the token, the newline and the token. On a failure with ``no newline'' or ``no
  length'' the view is unchanged. On a failure with ``insufficient contents'' the view
  has been advanced past the header and the newline, and past no byte after them.
\<close>

theorem getToken_view:
  "(getToken contents error = (Some token, rest, error') \<longrightarrow>
      error' = error \<and>
      (\<exists>hdr. valid_frame (hdr, token) \<and> contents = frame_bytes (hdr, token) @ rest)) \<and>
   (getToken contents error = (None, rest, error') \<longrightarrow>
      rest = contents \<and>
        (error' = ''Bad file: no newline'' \<or> error' = ''Bad file: no length'') \<or>
      error' = ''Bad file: insufficient contents'' \<and>
        (\<exists>hdr n. newline \<notin> set hdr \<and> SimpleAtoi hdr = Some n \<and>
           contents = hdr @ newline # rest \<and> length rest < n))"
proof (cases "find_newline contents")
  case None
  then show ?thesis by (simp add: getToken_def)
next
  case (Some i)
  from find_newline_split [OF Some] obtain hdr body
    where c: "contents = hdr @ newline # body" and h: "newline \<notin> set hdr" and i: "i = length hdr"
    by blast
  have f: "find_newline (hdr @ newline # body) = Some (length hdr)"
    using h by (rule find_newline_append)
  show ?thesis
  proof (cases "SimpleAtoi hdr")
    case None
    with f show ?thesis unfolding c by (simp add: getToken_def)
  next
    case len: (Some n)
    show ?thesis
    proof (cases "length body < n")
      case True
      with f len have "getToken (hdr @ newline # body) error =
          (None, body, ''Bad file: insufficient contents'')"
        by (simp add: getToken_def)
      with h len True show ?thesis unfolding c
        by (auto intro!: exI [of _ hdr] exI [of _ n])
    next
      case False
      with f len have g: "getToken (hdr @ newline # body) error =
          (Some (take n body), drop n body, error)"
        by (simp add: getToken_def)
      from False have "valid_frame (hdr, take n body)"
        using h len by (simp add: valid_frame_def)
      moreover have "hdr @ newline # body = frame_bytes (hdr, take n body) @ drop n body"
        by (simp add: frame_bytes_def)
      ultimately show ?thesis unfolding c g
        by (auto intro!: exI [of _ hdr])
    qed
  qed
qed

theorem getToken_view_witness:
  "getToken ''1\<newline>A1\<newline>B'' ''e'' = (Some ''A'', ''1\<newline>B'', ''e'') \<and>
   (\<exists>hdr. valid_frame (hdr, ''A'') \<and> ''1\<newline>A1\<newline>B'' = frame_bytes (hdr, ''A'') @ ''1\<newline>B'') \<and>
   getToken ''5\<newline>ab'' ''e'' = (None, ''ab'', ''Bad file: insufficient contents'') \<and>
   (\<exists>hdr n. newline \<notin> set hdr \<and> SimpleAtoi hdr = Some n \<and>
       ''5\<newline>ab'' = hdr @ newline # ''ab'' \<and> length ''ab'' < n) \<and>
   getToken ''5x'' ''e'' = (None, ''5x'', ''Bad file: no newline'')"
proof -
  have a: "getToken ''1\<newline>A1\<newline>B'' ''e'' = (Some ''A'', ''1\<newline>B'', ''e'')"
    by (simp add: eval_defs)
  have b: "getToken ''5\<newline>ab'' ''e'' = (None, ''ab'', ''Bad file: insufficient contents'')"
    by (simp add: eval_defs)
  have c: "getToken ''5x'' ''e'' = (None, ''5x'', ''Bad file: no newline'')"
    by (simp add: eval_defs)
  from a getToken_view [of "''1\<newline>A1\<newline>B''" "''e''" "''A''" "''1\<newline>B''" "''e''"]
  have a': "\<exists>hdr. valid_frame (hdr, ''A'') \<and> ''1\<newline>A1\<newline>B'' = frame_bytes (hdr, ''A'') @ ''1\<newline>B''"
    by blast
  from b getToken_view [of "''5\<newline>ab''" "''e''" "''A''" "''ab''" "''Bad file: insufficient contents''"]
  have b': "\<exists>hdr n. newline \<notin> set hdr \<and> SimpleAtoi hdr = Some n \<and>
       ''5\<newline>ab'' = hdr @ newline # ''ab'' \<and> length ''ab'' < n"
    by simp
  from a a' b b' c show ?thesis by blast
qed

subsection \<open>The failures of the token reader\<close>

lemma getToken_spec:
  "getToken contents error =
     (if newline \<notin> set contents then (None, contents, ''Bad file: no newline'')
      else case decimal_length (header_of contents) of
        None \<Rightarrow> (None, contents, ''Bad file: no length'')
      | Some n \<Rightarrow>
          if length (after_newline contents) < n
          then (None, after_newline contents, ''Bad file: insufficient contents'')
          else (Some (take n (after_newline contents)), drop n (after_newline contents), error))"
proof (cases "find_newline contents")
  case None
  then show ?thesis by (simp add: getToken_def find_newline_None [symmetric])
next
  case (Some i)
  then have "find_newline contents \<noteq> None" by simp
  then have n: "newline \<in> set contents" by (simp add: find_newline_None)
  from find_newline_Some [OF Some]
  have t: "take i contents = header_of contents" "drop (i + 1) contents = after_newline contents"
    by (simp_all add: header_of_def after_newline_def)
  show ?thesis
    unfolding getToken_def Some option.case t SimpleAtoi_decimal_length Let_def
    using n by (simp split: option.splits)
qed

lemma not_space_in_strip:
  assumes "c \<in> set s" "\<not> ascii_isspace c"
  shows "c \<in> set (strip_whitespace s)"
proof -
  have d: "\<And>xs. c \<in> set xs \<Longrightarrow> c \<in> set (dropWhile ascii_isspace xs)"
  proof -
    fix xs show "c \<in> set xs \<Longrightarrow> c \<in> set (dropWhile ascii_isspace xs)"
      using assms(2) by (induction xs) auto
  qed
  from assms(1) have "c \<in> set (dropWhile ascii_isspace s)" by (rule d)
  then have "c \<in> set (rev (dropWhile ascii_isspace s))" by simp
  then have "c \<in> set (dropWhile ascii_isspace (rev (dropWhile ascii_isspace s)))" by (rule d)
  then show ?thesis by (simp add: strip_whitespace_def)
qed

lemma decimal_length_non_numeric:
  assumes "c \<in> set s" "\<not> ascii_isdigit c" "\<not> ascii_isspace c" "c \<noteq> CHR ''+''"
  shows "decimal_length s = None"
proof -
  from assms have m: "c \<in> set (strip_whitespace s)" by (simp add: not_space_in_strip)
  then obtain x xs where t: "strip_whitespace s = x # xs" by (cases "strip_whitespace s") auto
  have "c \<in> set (if x = CHR ''+'' then xs else x # xs)"
    using m assms(4) unfolding t by auto
  then have "\<not> list_all ascii_isdigit (if x = CHR ''+'' then xs else x # xs)"
    using assms(2) by (auto simp: list_all_iff)
  then show ?thesis
    by (auto simp: decimal_length_def t Let_def split: if_splits)
qed

text \<open>
  C5. \<^verbatim>\<open>getToken\<close> fails exactly when the view has no newline, or the substring before
  the first newline is not a valid decimal length, or fewer bytes than the length follow
  the newline; the three failures set the messages ``no newline'', ``no length'' and
  ``insufficient contents'' (each after the prefix ``Bad file: '' of the source).
  Otherwise the call returns exactly the next \<open>n\<close> bytes after the newline. The empty
  substring, a substring with a character that is neither a digit, nor whitespace, nor a
  plus sign, and the decimal numeral of a number from \<open>2\<^sup>6\<^sup>4\<close> on are not valid lengths.
\<close>

theorem getToken_failures:
  "(fst (getToken contents error) = None \<longleftrightarrow>
      newline \<notin> set contents \<or> decimal_length (header_of contents) = None \<or>
      (\<exists>n. decimal_length (header_of contents) = Some n \<and> length (after_newline contents) < n)) \<and>
   (newline \<notin> set contents \<longrightarrow>
      getToken contents error = (None, contents, ''Bad file: no newline'')) \<and>
   (newline \<in> set contents \<and> decimal_length (header_of contents) = None \<longrightarrow>
      getToken contents error = (None, contents, ''Bad file: no length'')) \<and>
   (\<forall>n. newline \<in> set contents \<and> decimal_length (header_of contents) = Some n \<and>
        length (after_newline contents) < n \<longrightarrow>
      getToken contents error =
        (None, after_newline contents, ''Bad file: insufficient contents'')) \<and>
   (\<forall>n. newline \<in> set contents \<and> decimal_length (header_of contents) = Some n \<and>
        n \<le> length (after_newline contents) \<longrightarrow>
      getToken contents error =
        (Some (take n (after_newline contents)), drop n (after_newline contents), error)) \<and>
   decimal_length [] = None \<and>
   (\<forall>s c. c \<in> set s \<and> \<not> ascii_isdigit c \<and> \<not> ascii_isspace c \<and> c \<noteq> CHR ''+'' \<longrightarrow>
      decimal_length s = None) \<and>
   (\<forall>n. decimal_length (decimal n) = (if n < 2 ^ 64 then Some n else None))"
proof -
  have a: "fst (getToken contents error) = None \<longleftrightarrow>
      newline \<notin> set contents \<or> decimal_length (header_of contents) = None \<or>
      (\<exists>n. decimal_length (header_of contents) = Some n \<and> length (after_newline contents) < n)"
    by (simp add: getToken_spec split: option.splits)
  have b: "newline \<notin> set contents \<longrightarrow>
      getToken contents error = (None, contents, ''Bad file: no newline'')"
    by (simp add: getToken_spec)
  have c: "newline \<in> set contents \<and> decimal_length (header_of contents) = None \<longrightarrow>
      getToken contents error = (None, contents, ''Bad file: no length'')"
    by (simp add: getToken_spec)
  have d: "\<forall>n. newline \<in> set contents \<and> decimal_length (header_of contents) = Some n \<and>
        length (after_newline contents) < n \<longrightarrow>
      getToken contents error =
        (None, after_newline contents, ''Bad file: insufficient contents'')"
    by (simp add: getToken_spec)
  have e: "\<forall>n. newline \<in> set contents \<and> decimal_length (header_of contents) = Some n \<and>
        n \<le> length (after_newline contents) \<longrightarrow>
      getToken contents error =
        (Some (take n (after_newline contents)), drop n (after_newline contents), error)"
    by (simp add: getToken_spec)
  have f: "decimal_length [] = None"
    by (simp add: decimal_length_def strip_whitespace_def)
  have g: "\<forall>s c. c \<in> set s \<and> \<not> ascii_isdigit c \<and> \<not> ascii_isspace c \<and> c \<noteq> CHR ''+'' \<longrightarrow>
      decimal_length s = None"
    using decimal_length_non_numeric by blast
  have h: "\<forall>n. decimal_length (decimal n) = (if n < 2 ^ 64 then Some n else None)"
    by (simp add: decimal_length_decimal)
  from a b c d e f g h show ?thesis by (intro conjI)
qed

lemmas length_eval = decimal_length_def dec_val_def header_of_def after_newline_def
  strip_whitespace_def ascii_isspace_def ascii_isdigit_def digit_value_def newline_def

theorem getToken_failures_witness:
  "getToken ''3\<newline>abcde'' ''e'' = (Some ''abc'', ''de'', ''e'') \<and>
   getToken ''3\<newline>ab'' ''e'' = (None, ''ab'', ''Bad file: insufficient contents'') \<and>
   getToken ''x\<newline>ab'' ''e'' = (None, ''x\<newline>ab'', ''Bad file: no length'') \<and>
   getToken ''\<newline>ab'' ''e'' = (None, ''\<newline>ab'', ''Bad file: no length'') \<and>
   getToken ''18446744073709551616\<newline>ab'' ''e'' =
     (None, ''18446744073709551616\<newline>ab'', ''Bad file: no length'') \<and>
   getToken ''3ab'' ''e'' = (None, ''3ab'', ''Bad file: no newline'') \<and>
   decimal_length ''12a'' = None"
proof -
  have 7: "CHR ''a'' \<in> set ''12a'' \<and> \<not> ascii_isdigit CHR ''a'' \<and> \<not> ascii_isspace CHR ''a'' \<and>
      CHR ''a'' \<noteq> CHR ''+''"
    by (simp add: ascii_isdigit_def ascii_isspace_def)
  have 1: "newline \<in> set ''3\<newline>abcde'' \<and> decimal_length (header_of ''3\<newline>abcde'') = Some 3 \<and>
      3 \<le> length (after_newline ''3\<newline>abcde'')"
    by (simp add: length_eval)
  have 2: "newline \<in> set ''3\<newline>ab'' \<and> decimal_length (header_of ''3\<newline>ab'') = Some 3 \<and>
      length (after_newline ''3\<newline>ab'') < 3"
    by (simp add: length_eval)
  have 3: "newline \<in> set ''x\<newline>ab'' \<and> decimal_length (header_of ''x\<newline>ab'') = None"
    by (simp add: length_eval)
  have 4: "newline \<in> set ''\<newline>ab'' \<and> decimal_length (header_of ''\<newline>ab'') = None"
    by (simp add: length_eval)
  have 5: "newline \<in> set ''18446744073709551616\<newline>ab'' \<and>
      decimal_length (header_of ''18446744073709551616\<newline>ab'') = None"
    by (simp add: length_eval)
  have 6: "newline \<notin> set ''3ab''"
    by (simp add: newline_def)
  have "getToken ''3\<newline>abcde'' ''e'' = (Some ''abc'', ''de'', ''e'')"
    using 1 getToken_failures [of "''3\<newline>abcde''" "''e''"] by (simp add: after_newline_def newline_def)
  moreover have "getToken ''3\<newline>ab'' ''e'' = (None, ''ab'', ''Bad file: insufficient contents'')"
    using 2 getToken_failures [of "''3\<newline>ab''" "''e''"] by (simp add: after_newline_def newline_def)
  moreover have "getToken ''x\<newline>ab'' ''e'' = (None, ''x\<newline>ab'', ''Bad file: no length'')"
    using 3 getToken_failures [of "''x\<newline>ab''" "''e''"] by simp
  moreover have "getToken ''\<newline>ab'' ''e'' = (None, ''\<newline>ab'', ''Bad file: no length'')"
    using 4 getToken_failures [of "''\<newline>ab''" "''e''"] by simp
  moreover have "getToken ''18446744073709551616\<newline>ab'' ''e'' =
     (None, ''18446744073709551616\<newline>ab'', ''Bad file: no length'')"
    using 5 getToken_failures [of "''18446744073709551616\<newline>ab''" "''e''"] by simp
  moreover have "getToken ''3ab'' ''e'' = (None, ''3ab'', ''Bad file: no newline'')"
    using 6 getToken_failures [of "''3ab''" "''e''"] by simp
  moreover have "decimal_length ''12a'' = None"
    using 7 getToken_failures [of "[]" "[]"] by blast
  ultimately show ?thesis by (intro conjI)
qed

subsection \<open>A failing token after valid pairs\<close>

lemma parseContents_wire:
  assumes "list_all (\<lambda>(kf, vf). valid_frame kf \<and> valid_frame vf) fps"
  shows "parseContents (wire fps @ tail) st =
         parseContents_loop tail [] (emplace_all (pairs_of fps) st)"
  unfolding parseContents_def by (rule parseContents_loop_wire [OF assms])

lemma emplace_all_empty: "emplace_all kvs Map.empty = map_of kvs"
  by (simp add: emplace_all_eq)

lemma getToken_truncated:
  assumes "valid_frame f" "proper_prefix t (frame_bytes f)"
  shows "fst (getToken t error) = None \<and>
         (snd (snd (getToken t error)) = ''Bad file: no newline'' \<or>
          snd (snd (getToken t error)) = ''Bad file: insufficient contents'')"
proof -
  obtain hdr payload where f: "f = (hdr, payload)" by (cases f)
  from assms(1) f have h: "newline \<notin> set hdr" and a: "SimpleAtoi hdr = Some (length payload)"
    by (simp_all add: valid_frame_def)
  from assms(2) f have l: "length t < length hdr + 1 + length payload"
    and t: "t = take (length t) (hdr @ newline # payload)"
    by (simp_all add: proper_prefix_def frame_bytes_def)
  show ?thesis
  proof (cases "length t \<le> length hdr")
    case True
    with t have "t = take (length t) hdr" by simp
    then have "set t \<subseteq> set hdr" by (metis set_take_subset)
    with h have "newline \<notin> set t" by blast
    then have "find_newline t = None" by (simp add: find_newline_None)
    then show ?thesis by (simp add: getToken_def)
  next
    case False
    define m where "m = length t - length hdr - 1"
    from False l have m: "m < length payload" "length t - length hdr = Suc m"
      by (simp_all add: m_def)
    from t False m have t': "t = hdr @ newline # take m payload"
      by simp
    have "find_newline (hdr @ newline # take m payload) = Some (length hdr)"
      using h by (rule find_newline_append)
    with a m(1) show ?thesis
      unfolding t' by (simp add: getToken_def)
  qed
qed

text \<open>
  C3, as the spec states it, fails when two of the valid pairs share a key. The buffer
  \<^verbatim>\<open>"1\nA1\nB1\nA1\nC2\nC"\<close> holds the valid pairs \<open>(A, B)\<close> and \<open>(A, C)\<close> followed by a
  truncated token; parsing it fails and leaves only \<open>A\<close> mapped to \<open>B\<close> in the store, so
  the store does not contain the second of the two valid pairs.
\<close>

theorem parseContents_partial_failure_counterexample:
  "list_all (\<lambda>(kf, vf). valid_frame kf \<and> valid_frame vf)
     [((''1'', ''A''), (''1'', ''B'')), ((''1'', ''A''), (''1'', ''C''))] \<and>
   wire [((''1'', ''A''), (''1'', ''B'')), ((''1'', ''A''), (''1'', ''C''))] @ ''2\<newline>C'' =
     ''1\<newline>A1\<newline>B1\<newline>A1\<newline>C2\<newline>C'' \<and>
   proper_prefix ''2\<newline>C'' (frame_bytes (''2'', ''CD'')) \<and>
   parseContents ''1\<newline>A1\<newline>B1\<newline>A1\<newline>C2\<newline>C'' Map.empty =
     (False, [''A'' \<mapsto> ''B''], [''Bad file: insufficient contents'']) \<and>
   fst (snd (parseContents ''1\<newline>A1\<newline>B1\<newline>A1\<newline>C2\<newline>C'' Map.empty)) ''A'' \<noteq> Some ''C''"
proof -
  have v: "list_all (\<lambda>(kf, vf). valid_frame kf \<and> valid_frame vf)
     [((''1'', ''A''), (''1'', ''B'')), ((''1'', ''A''), (''1'', ''C''))]"
    by (simp add: valid_frame_def eval_defs)
  have w: "wire [((''1'', ''A''), (''1'', ''B'')), ((''1'', ''A''), (''1'', ''C''))] @ ''2\<newline>C'' =
     ''1\<newline>A1\<newline>B1\<newline>A1\<newline>C2\<newline>C''"
    by (simp add: wire_def frame_bytes_def newline_def)
  have p: "proper_prefix ''2\<newline>C'' (frame_bytes (''2'', ''CD''))"
    by (simp add: proper_prefix_def frame_bytes_def newline_def)
  have r: "parseContents ''1\<newline>A1\<newline>B1\<newline>A1\<newline>C2\<newline>C'' Map.empty =
     (False, [''A'' \<mapsto> ''B''], [''Bad file: insufficient contents''])"
    by (simp add: parseContents_def parse_eval eval_defs)
  from r have n: "fst (snd (parseContents ''1\<newline>A1\<newline>B1\<newline>A1\<newline>C2\<newline>C'' Map.empty)) ''A'' \<noteq> Some ''C''"
    by simp
  from v w p r n show ?thesis by (intro conjI)
qed

text \<open>
  C3, amended. Let a buffer hold \<open>N\<close> validly encoded pairs followed by a non-empty tail.
  When the tail's first token fails to decode, or its first token decodes and its second
  token fails, \<^verbatim>\<open>parseContents\<close> into an empty store returns failure, logs the error of the
  failing token and leaves in the store, for each key of the \<open>N\<close> pairs, the value of the
  first pair with that key (\<open>map_of\<close> finds the first pair); the entries of the store are
  exactly the \<open>N\<close> pairs when their keys are distinct. A truncated token always fails to
  decode, so this holds for a tail that is a truncated key token and for a tail that is a
  key token followed by a truncated value token. Parsing \<^verbatim>\<open>"1\nA1\n"\<close> fails with
  ``insufficient contents'' and stores no pair.
\<close>

theorem parseContents_partial_failure:
  assumes "list_all (\<lambda>(kf, vf). valid_frame kf \<and> valid_frame vf) fps"
  shows
  "(tail \<noteq> [] \<and> getToken tail [] = (None, rest, err) \<longrightarrow>
      parseContents (wire fps @ tail) Map.empty = (False, map_of (pairs_of fps), [err])) \<and>
   (getToken tail [] = (Some key, rest1, err1) \<and> getToken rest1 err1 = (None, rest, err) \<longrightarrow>
      parseContents (wire fps @ tail) Map.empty = (False, map_of (pairs_of fps), [err])) \<and>
   (distinct (map fst (pairs_of fps)) \<longrightarrow>
      Map.graph (map_of (pairs_of fps)) = set (pairs_of fps)) \<and>
   (valid_frame kf \<and> tail \<noteq> [] \<and> proper_prefix tail (frame_bytes kf) \<longrightarrow>
      parseContents (wire fps @ tail) Map.empty =
        (False, map_of (pairs_of fps), [''Bad file: no newline'']) \<or>
      parseContents (wire fps @ tail) Map.empty =
        (False, map_of (pairs_of fps), [''Bad file: insufficient contents''])) \<and>
   (valid_frame kf \<and> valid_frame vf \<and> proper_prefix tail (frame_bytes vf) \<longrightarrow>
      parseContents (wire fps @ frame_bytes kf @ tail) Map.empty =
        (False, map_of (pairs_of fps), [''Bad file: no newline'']) \<or>
      parseContents (wire fps @ frame_bytes kf @ tail) Map.empty =
        (False, map_of (pairs_of fps), [''Bad file: insufficient contents''])) \<and>
   parseContents ''1\<newline>A1\<newline>'' Map.empty =
     (False, Map.empty, [''Bad file: insufficient contents''])"
proof -
  note w = parseContents_wire [OF assms, of _ Map.empty, unfolded emplace_all_empty]
  have key_fails: "parseContents (wire fps @ c) Map.empty = (False, map_of (pairs_of fps), [e])"
    if "c \<noteq> []" "getToken c [] = (None, r, e)" for c r e
    using that by (simp add: w parseContents_loop_step)
  have val_fails: "parseContents (wire fps @ c) Map.empty = (False, map_of (pairs_of fps), [e])"
    if "getToken c [] = (Some k, r1, e1)" "getToken r1 e1 = (None, r, e)" for c k r1 e1 r e
  proof -
    from that(1) have "c \<noteq> []" by (auto simp: getToken_def)
    with that show ?thesis by (simp add: w parseContents_loop_step)
  qed
  have 1: "tail \<noteq> [] \<and> getToken tail [] = (None, rest, err) \<longrightarrow>
      parseContents (wire fps @ tail) Map.empty = (False, map_of (pairs_of fps), [err])"
    using key_fails by blast
  have 2: "getToken tail [] = (Some key, rest1, err1) \<and> getToken rest1 err1 = (None, rest, err) \<longrightarrow>
      parseContents (wire fps @ tail) Map.empty = (False, map_of (pairs_of fps), [err])"
    using val_fails by blast
  have 3: "distinct (map fst (pairs_of fps)) \<longrightarrow>
      Map.graph (map_of (pairs_of fps)) = set (pairs_of fps)"
    by (simp add: graph_map_of_if_distinct_dom)
  have 4: "parseContents (wire fps @ tail) Map.empty =
        (False, map_of (pairs_of fps), [''Bad file: no newline'']) \<or>
      parseContents (wire fps @ tail) Map.empty =
        (False, map_of (pairs_of fps), [''Bad file: insufficient contents''])"
    if "valid_frame kf \<and> tail \<noteq> [] \<and> proper_prefix tail (frame_bytes kf)"
  proof -
    from that getToken_truncated [of kf tail "[]"]
    obtain r e where "getToken tail [] = (None, r, e)"
      and "e = ''Bad file: no newline'' \<or> e = ''Bad file: insufficient contents''"
      by (cases "getToken tail []") auto
    with that key_fails [of tail r e] show ?thesis by blast
  qed
  have 5: "parseContents (wire fps @ frame_bytes kf @ tail) Map.empty =
        (False, map_of (pairs_of fps), [''Bad file: no newline'']) \<or>
      parseContents (wire fps @ frame_bytes kf @ tail) Map.empty =
        (False, map_of (pairs_of fps), [''Bad file: insufficient contents''])"
    if "valid_frame kf \<and> valid_frame vf \<and> proper_prefix tail (frame_bytes vf)"
  proof -
    from that have k: "getToken (frame_bytes kf @ tail) [] = (Some (snd kf), tail, [])"
      by (simp add: getToken_frame)
    from that getToken_truncated [of vf tail "[]"]
    obtain r e where "getToken tail [] = (None, r, e)"
      and "e = ''Bad file: no newline'' \<or> e = ''Bad file: insufficient contents''"
      by (cases "getToken tail []") auto
    with val_fails [OF k, of r e] show ?thesis by blast
  qed
  have 6: "parseContents ''1\<newline>A1\<newline>'' Map.empty =
     (False, Map.empty, [''Bad file: insufficient contents''])"
    by (simp add: parseContents_def parse_eval eval_defs)
  from 1 2 3 4 5 6 show ?thesis by blast
qed

theorem parseContents_partial_failure_witness:
  "list_all (\<lambda>(kf, vf). valid_frame kf \<and> valid_frame vf) [((''1'', ''A''), (''1'', ''B''))] \<and>
   wire [((''1'', ''A''), (''1'', ''B''))] = ''1\<newline>A1\<newline>B'' \<and>
   getToken ''2\<newline>CD3\<newline>EF'' [] = (Some ''CD'', ''3\<newline>EF'', []) \<and>
   getToken ''3\<newline>EF'' [] = (None, ''EF'', ''Bad file: insufficient contents'') \<and>
   parseContents ''1\<newline>A1\<newline>B2\<newline>CD3\<newline>EF'' Map.empty =
     (False, [''A'' \<mapsto> ''B''], [''Bad file: insufficient contents'']) \<and>
   getToken ''x2\<newline>CD'' [] = (None, ''x2\<newline>CD'', ''Bad file: no length'') \<and>
   parseContents ''1\<newline>A1\<newline>Bx2\<newline>CD'' Map.empty =
     (False, [''A'' \<mapsto> ''B''], [''Bad file: no length'']) \<and>
   valid_frame (''2'', ''CD'') \<and> proper_prefix ''2\<newline>C'' (frame_bytes (''2'', ''CD'')) \<and>
   parseContents ''1\<newline>A1\<newline>B2\<newline>C'' Map.empty =
     (False, [''A'' \<mapsto> ''B''], [''Bad file: insufficient contents'']) \<and>
   Map.graph [''A'' \<mapsto> ''B''] = {(''A'', ''B'')}"
proof -
  have v: "list_all (\<lambda>(kf, vf). valid_frame kf \<and> valid_frame vf) [((''1'', ''A''), (''1'', ''B''))]"
    by (simp add: valid_frame_def eval_defs)
  have w: "wire [((''1'', ''A''), (''1'', ''B''))] = ''1\<newline>A1\<newline>B''"
    by (simp add: wire_def frame_bytes_def newline_def)
  have k: "getToken ''2\<newline>CD3\<newline>EF'' [] = (Some ''CD'', ''3\<newline>EF'', [])"
    by (simp add: eval_defs)
  have f: "getToken ''3\<newline>EF'' [] = (None, ''EF'', ''Bad file: insufficient contents'')"
    by (simp add: eval_defs)
  have x: "getToken ''x2\<newline>CD'' [] = (None, ''x2\<newline>CD'', ''Bad file: no length'')"
    by (simp add: eval_defs)
  have c: "valid_frame (''2'', ''CD'')"
    by (simp add: valid_frame_def eval_defs)
  have p: "proper_prefix ''2\<newline>C'' (frame_bytes (''2'', ''CD''))"
    by (simp add: proper_prefix_def frame_bytes_def newline_def)
  have m: "map_of (pairs_of [((''1'', ''A''), (''1'', ''B''))]) = [''A'' \<mapsto> ''B'']"
    and d: "distinct (map fst (pairs_of [((''1'', ''A''), (''1'', ''B''))]))"
    and s: "set (pairs_of [((''1'', ''A''), (''1'', ''B''))]) = {(''A'', ''B'')}"
    by (simp_all add: pairs_of_def)
  note t = parseContents_partial_failure [OF v, unfolded w m s, simplified append.simps]
  from t [where tail = "''2\<newline>CD3\<newline>EF''" and key = "''CD''"
      and ?rest1.0 = "''3\<newline>EF''" and ?err1.0 = "[]" and rest = "''EF''"
      and err = "''Bad file: insufficient contents''"] k f
  have 1: "parseContents ''1\<newline>A1\<newline>B2\<newline>CD3\<newline>EF'' Map.empty =
     (False, [''A'' \<mapsto> ''B''], [''Bad file: insufficient contents''])"
    by blast
  from t [where tail = "''x2\<newline>CD''" and rest = "''x2\<newline>CD''" and err = "''Bad file: no length''"] x
  have 2: "parseContents ''1\<newline>A1\<newline>Bx2\<newline>CD'' Map.empty =
     (False, [''A'' \<mapsto> ''B''], [''Bad file: no length''])"
    by simp
  have n: "parseContents ''1\<newline>A1\<newline>B2\<newline>C'' Map.empty \<noteq>
      (False, [''A'' \<mapsto> ''B''], [''Bad file: no newline''])"
    by (simp add: parseContents_def parse_eval eval_defs)
  from t [where tail = "''2\<newline>C''" and kf = "(''2'', ''CD'')"] c p n
  have 3: "parseContents ''1\<newline>A1\<newline>B2\<newline>C'' Map.empty =
     (False, [''A'' \<mapsto> ''B''], [''Bad file: insufficient contents''])"
    by simp
  from t d have 4: "Map.graph [''A'' \<mapsto> ''B''] = {(''A'', ''B'')}"
    by blast
  from v w k f 1 x 2 c p 3 4 show ?thesis by (intro conjI)
qed

subsection \<open>The round trip\<close>

lemma serialize_wire:
  "serialize kvs = wire (map (\<lambda>(k, v). ((decimal (length k), k), (decimal (length v), v))) kvs)"
  by (induction kvs) (auto simp: serialize_def wire_def frame_bytes_def)

lemma pairs_of_canonical:
  "pairs_of (map (\<lambda>(k, v). ((decimal (length k), k), (decimal (length v), v))) kvs) = kvs"
  by (induction kvs) (auto simp: pairs_of_def)

lemma valid_canonical:
  "list_all (\<lambda>(k, v). length k < 2 ^ 64 \<and> length v < 2 ^ 64) kvs \<Longrightarrow>
   list_all (\<lambda>(kf, vf). valid_frame kf \<and> valid_frame vf)
     (map (\<lambda>(k, v). ((decimal (length k), k), (decimal (length v), v))) kvs)"
  by (induction kvs) (auto simp: valid_frame_decimal)

lemma parseContents_serialize:
  assumes "list_all (\<lambda>(k, v). length k < 2 ^ 64 \<and> length v < 2 ^ 64) kvs"
  shows "parseContents (serialize kvs) Map.empty = (True, map_of kvs, [])"
proof -
  have "parseContents (serialize kvs @ []) Map.empty = parseContents_loop [] [] (map_of kvs)"
    unfolding serialize_wire
    using parseContents_wire [OF valid_canonical [OF assms], of "[]" Map.empty]
    by (simp only: pairs_of_canonical emplace_all_empty)
  then show ?thesis by (simp add: parseContents_loop_Nil)
qed

lemma enumerates_set: "enumerates kvs M \<Longrightarrow> set kvs = Map.graph M"
  by (auto simp: enumerates_def graph_map_of_if_distinct_dom)

text \<open>
  C4. Let a list of pairs enumerate a mapping \<open>M\<close>, in any order, with every key and
  value shorter than \<open>2\<^sup>6\<^sup>4\<close> bytes, as every string of the program is. Serializing the
  list in the wire format and parsing the result into an empty store succeeds, logs
  nothing and yields exactly \<open>M\<close>; any other enumeration of \<open>M\<close> gives the same result.
\<close>

theorem round_trip:
  assumes "enumerates kvs M"
    and "list_all (\<lambda>(k, v). length k < 2 ^ 64 \<and> length v < 2 ^ 64) kvs"
  shows "parseContents (serialize kvs) Map.empty = (True, M, []) \<and>
         (\<forall>kvs'. enumerates kvs' M \<longrightarrow>
            parseContents (serialize kvs') Map.empty = parseContents (serialize kvs) Map.empty)"
proof -
  from assms(1) have m: "map_of kvs = M" by (simp add: enumerates_def)
  have a: "parseContents (serialize kvs) Map.empty = (True, M, [])"
    using parseContents_serialize [OF assms(2)] m by simp
  have "parseContents (serialize kvs') Map.empty = (True, M, [])" if "enumerates kvs' M" for kvs'
  proof -
    from that assms(1) have "set kvs' = set kvs" by (simp add: enumerates_set)
    with assms(2) have "list_all (\<lambda>(k, v). length k < 2 ^ 64 \<and> length v < 2 ^ 64) kvs'"
      by (simp add: list_all_iff)
    from parseContents_serialize [OF this] that show ?thesis by (simp add: enumerates_def)
  qed
  with a show ?thesis by simp
qed

lemma decimal_1: "decimal (Suc 0) = ''1''"
  by code_simp

lemma decimal_2: "decimal (Suc (Suc 0)) = ''2''"
  by code_simp

theorem round_trip_witness:
  "enumerates [(''CD'', ''E''), (''A'', ''B'')] [''A'' \<mapsto> ''B'', ''CD'' \<mapsto> ''E''] \<and>
   enumerates [(''A'', ''B''), (''CD'', ''E'')] [''A'' \<mapsto> ''B'', ''CD'' \<mapsto> ''E''] \<and>
   list_all (\<lambda>(k, v). length k < 2 ^ 64 \<and> length v < 2 ^ 64) [(''CD'', ''E''), (''A'', ''B'')] \<and>
   serialize [(''CD'', ''E''), (''A'', ''B'')] = ''2\<newline>CD1\<newline>E1\<newline>A1\<newline>B'' \<and>
   serialize [(''A'', ''B''), (''CD'', ''E'')] = ''1\<newline>A1\<newline>B2\<newline>CD1\<newline>E'' \<and>
   parseContents ''2\<newline>CD1\<newline>E1\<newline>A1\<newline>B'' Map.empty =
     (True, [''A'' \<mapsto> ''B'', ''CD'' \<mapsto> ''E''], []) \<and>
   parseContents ''1\<newline>A1\<newline>B2\<newline>CD1\<newline>E'' Map.empty =
     (True, [''A'' \<mapsto> ''B'', ''CD'' \<mapsto> ''E''], [])"
proof -
  have e: "enumerates [(''CD'', ''E''), (''A'', ''B'')] [''A'' \<mapsto> ''B'', ''CD'' \<mapsto> ''E'']"
    by (simp add: enumerates_def)
  have e': "enumerates [(''A'', ''B''), (''CD'', ''E'')] [''A'' \<mapsto> ''B'', ''CD'' \<mapsto> ''E'']"
    by (auto simp: enumerates_def)
  have l: "list_all (\<lambda>(k, v). length k < 2 ^ 64 \<and> length v < 2 ^ 64) [(''CD'', ''E''), (''A'', ''B'')]"
    by simp
  have s: "serialize [(''CD'', ''E''), (''A'', ''B'')] = ''2\<newline>CD1\<newline>E1\<newline>A1\<newline>B''"
    by (simp add: serialize_def decimal_1 decimal_2 newline_def)
  have s': "serialize [(''A'', ''B''), (''CD'', ''E'')] = ''1\<newline>A1\<newline>B2\<newline>CD1\<newline>E''"
    by (simp add: serialize_def decimal_1 decimal_2 newline_def)
  note t = round_trip [OF e l, unfolded s]
  from t have 1: "parseContents ''2\<newline>CD1\<newline>E1\<newline>A1\<newline>B'' Map.empty =
     (True, [''A'' \<mapsto> ''B'', ''CD'' \<mapsto> ''E''], [])"
    by blast
  from t e' have "parseContents (serialize [(''A'', ''B''), (''CD'', ''E'')]) Map.empty =
      parseContents ''2\<newline>CD1\<newline>E1\<newline>A1\<newline>B'' Map.empty"
    by blast
  with 1 have 2: "parseContents ''1\<newline>A1\<newline>B2\<newline>CD1\<newline>E'' Map.empty =
     (True, [''A'' \<mapsto> ''B'', ''CD'' \<mapsto> ''E''], [])"
    unfolding s' by simp
  from e e' l s s' 1 2 show ?thesis by (intro conjI)
qed

subsection \<open>Termination of the parse loop\<close>

lemma parseContents_fuel_enough:
  "length contents < n \<Longrightarrow>
   parseContents_fuel n contents error st = Some (parseContents_loop contents error st)"
proof (induction n arbitrary: contents error st)
  case 0
  then show ?case by simp
next
  case (Suc n)
  show ?case
  proof (cases "contents = []")
    case True
    then show ?thesis by (simp add: parseContents_loop_Nil)
  next
    case False
    obtain key c1 e1 where g1: "getToken contents error = (key, c1, e1)"
      by (cases "getToken contents error")
    show ?thesis
    proof (cases key)
      case None
      with False g1 show ?thesis by (simp add: parseContents_loop_step)
    next
      case k: (Some k)
      obtain val c2 e2 where g2: "getToken c1 e1 = (val, c2, e2)"
        by (cases "getToken c1 e1")
      show ?thesis
      proof (cases val)
        case None
        with False g1 k g2 show ?thesis by (simp add: parseContents_loop_step)
      next
        case v: (Some v)
        from g1 k have "length c1 < length contents" by (simp add: getToken_shrinks)
        moreover from g2 v have "length c2 < length c1" by (simp add: getToken_shrinks)
        ultimately have "length c2 < n" using Suc.prems by simp
        from Suc.IH [OF this] False g1 k g2 v show ?thesis
          by (simp add: parseContents_loop_step)
      qed
    qed
  qed
qed

text \<open>
  C10. \<^verbatim>\<open>parseContents\<close> returns for every buffer. A call of \<^verbatim>\<open>getToken\<close> that returns a
  token leaves a strictly shorter view; a failing call for a key or for a value makes
  the loop return in that same iteration; and the loop returns the result of
  \<^verbatim>\<open>parseContents\<close> within one more test of its condition than the buffer has bytes.
\<close>

theorem parseContents_terminates:
  "(\<forall>token rest error'. getToken contents error = (Some token, rest, error') \<longrightarrow>
      length rest < length contents) \<and>
   (contents \<noteq> [] \<and> fst (getToken contents error) = None \<longrightarrow>
      parseContents_fuel 1 contents error st =
        Some (False, st, [snd (snd (getToken contents error))])) \<and>
   (\<forall>key rest error'. getToken contents error = (Some key, rest, error') \<and>
        fst (getToken rest error') = None \<longrightarrow>
      parseContents_fuel 1 contents error st =
        Some (False, st, [snd (snd (getToken rest error'))])) \<and>
   parseContents_fuel (Suc (length contents)) contents [] st = Some (parseContents contents st)"
proof -
  have a: "\<forall>token rest error'. getToken contents error = (Some token, rest, error') \<longrightarrow>
      length rest < length contents"
    using getToken_shrinks by blast
  have b: "contents \<noteq> [] \<and> fst (getToken contents error) = None \<longrightarrow>
      parseContents_fuel 1 contents error st =
        Some (False, st, [snd (snd (getToken contents error))])"
    by (cases "getToken contents error") auto
  have c: "parseContents_fuel 1 contents error st =
        Some (False, st, [snd (snd (getToken rest error'))])"
    if "getToken contents error = (Some key, rest, error') \<and> fst (getToken rest error') = None"
    for key rest error'
  proof -
    from that have "contents \<noteq> []" by (auto simp: getToken_def)
    with that show ?thesis by (cases "getToken rest error'") auto
  qed
  have d: "parseContents_fuel (Suc (length contents)) contents [] st =
      Some (parseContents contents st)"
    by (simp only: parseContents_def parseContents_fuel_enough [OF lessI])
  from a b c d show ?thesis by blast
qed

theorem parseContents_terminates_witness:
  "getToken ''1\<newline>A1\<newline>'' [] = (Some ''A'', ''1\<newline>'', []) \<and>
   length ''1\<newline>'' < length ''1\<newline>A1\<newline>'' \<and>
   fst (getToken ''1\<newline>'' []) = None \<and>
   parseContents_fuel 1 ''1\<newline>A1\<newline>'' [] Map.empty =
     Some (False, Map.empty, [''Bad file: insufficient contents'']) \<and>
   parseContents_fuel (Suc (length ''1\<newline>A1\<newline>'')) ''1\<newline>A1\<newline>'' [] Map.empty =
     Some (parseContents ''1\<newline>A1\<newline>'' Map.empty)"
proof -
  have g: "getToken ''1\<newline>A1\<newline>'' [] = (Some ''A'', ''1\<newline>'', [])"
    by (simp add: eval_defs)
  have f: "getToken ''1\<newline>'' [] = (None, [], ''Bad file: insufficient contents'')"
    by (simp add: eval_defs)
  note t = parseContents_terminates [of "''1\<newline>A1\<newline>''" "[]" Map.empty]
  from t g have 1: "length ''1\<newline>'' < length ''1\<newline>A1\<newline>''" by blast
  from f have 2: "fst (getToken ''1\<newline>'' []) = None" by simp
  from t g 2 have "parseContents_fuel 1 ''1\<newline>A1\<newline>'' [] Map.empty =
     Some (False, Map.empty, [snd (snd (getToken ''1\<newline>'' []))])" by blast
  then have 3: "parseContents_fuel 1 ''1\<newline>A1\<newline>'' [] Map.empty =
     Some (False, Map.empty, [''Bad file: insufficient contents''])" by (simp only: f snd_conv)
  from t have 4: "parseContents_fuel (Suc (length ''1\<newline>A1\<newline>'')) ''1\<newline>A1\<newline>'' [] Map.empty =
     Some (parseContents ''1\<newline>A1\<newline>'' Map.empty)" by blast
  from g 1 2 3 4 show ?thesis by (intro conjI)
qed

subsection \<open>Mutations and the flush action\<close>

text \<open>
  C6. While the flush timer is not enabled, each call of \<^verbatim>\<open>addOrUpdate\<close> and of
  \<^verbatim>\<open>remove\<close> invokes the flush action exactly once, after the change of the store, and
  leaves the timer disabled; while the timer is enabled, neither call invokes the flush
  action, and the timer stays as it is.
\<close>

theorem mutation_flush:
  "(\<not> enabled (flush_timer s) \<longrightarrow>
      flushed (addOrUpdate key val s) = flushed s @ [(store_map s)(key \<mapsto> val)] \<and>
      length (flushed (addOrUpdate key val s)) = length (flushed s) + 1 \<and>
      \<not> enabled (flush_timer (addOrUpdate key val s)) \<and>
      flushed (remove key s) = flushed s @ [(store_map s)(key := None)] \<and>
      length (flushed (remove key s)) = length (flushed s) + 1 \<and>
      \<not> enabled (flush_timer (remove key s))) \<and>
   (enabled (flush_timer s) \<longrightarrow>
      flushed (addOrUpdate key val s) = flushed s \<and>
      flushed (remove key s) = flushed s \<and>
      flush_timer (addOrUpdate key val s) = flush_timer s \<and>
      flush_timer (remove key s) = flush_timer s) \<and>
   store_map (addOrUpdate key val s) = (store_map s)(key \<mapsto> val) \<and>
   store_map (remove key s) = (store_map s)(key := None)"
  by (simp add: addOrUpdate_def remove_def flush_def Let_def)

theorem mutation_flush_witness:
  "\<not> enabled (flush_timer (new_KeyValueStoreBase 0)) \<and>
   length (flushed (addOrUpdate ''k'' ''v'' (new_KeyValueStoreBase 0))) = 1 \<and>
   length (flushed (remove ''k'' (new_KeyValueStoreBase 0))) = 1 \<and>
   \<not> enabled (flush_timer (addOrUpdate ''k'' ''v'' (new_KeyValueStoreBase 0))) \<and>
   enabled (flush_timer (new_KeyValueStoreBase 5)) \<and>
   flushed (addOrUpdate ''k'' ''v'' (new_KeyValueStoreBase 5)) = [] \<and>
   flushed (remove ''k'' (new_KeyValueStoreBase 5)) = []"
proof -
  have d: "\<not> enabled (flush_timer (new_KeyValueStoreBase 0))"
    by (simp add: new_KeyValueStoreBase_def enabled_def)
  have a: "enabled (flush_timer (new_KeyValueStoreBase 5))"
    by (simp add: new_KeyValueStoreBase_def enabled_def enableTimer_def)
  have z: "flushed (new_KeyValueStoreBase 0) = []" "flushed (new_KeyValueStoreBase 5) = []"
    by (simp_all add: new_KeyValueStoreBase_def)
  from d mutation_flush [of "new_KeyValueStoreBase 0" "''k''" "''v''"] z(1)
  have 1: "length (flushed (addOrUpdate ''k'' ''v'' (new_KeyValueStoreBase 0))) = 1 \<and>
    length (flushed (remove ''k'' (new_KeyValueStoreBase 0))) = 1 \<and>
    \<not> enabled (flush_timer (addOrUpdate ''k'' ''v'' (new_KeyValueStoreBase 0)))"
    by simp
  from a mutation_flush [of "new_KeyValueStoreBase 5" "''k''" "''v''"] z(2)
  have 2: "flushed (addOrUpdate ''k'' ''v'' (new_KeyValueStoreBase 5)) = [] \<and>
    flushed (remove ''k'' (new_KeyValueStoreBase 5)) = []"
    by simp
  from d a 1 2 show ?thesis by blast
qed

subsection \<open>The flush timer across events\<close>

lemma step_disabled:
  "\<not> enabled (flush_timer s) \<Longrightarrow> \<not> enabled (flush_timer (step ev s))"
  by (cases ev) (simp_all add: addOrUpdate_def remove_def timer_fires_def flush_def Let_def)

lemma run_disabled:
  "\<not> enabled (flush_timer s) \<Longrightarrow> \<not> enabled (flush_timer (run evs s))"
  unfolding run_def by (induction evs arbitrary: s) (simp_all add: step_disabled)

lemma step_armed:
  "flush_timer s = Some (flush_interval s) \<Longrightarrow>
   flush_timer (step ev s) = Some (flush_interval s) \<and> flush_interval (step ev s) = flush_interval s"
  by (cases ev)
    (simp_all add: addOrUpdate_def remove_def timer_fires_def timer_callback_def flush_def
      enabled_def enableTimer_def Let_def)

lemma run_armed:
  "flush_timer s = Some (flush_interval s) \<Longrightarrow>
   flush_timer (run evs s) = Some (flush_interval s) \<and> flush_interval (run evs s) = flush_interval s"
  unfolding run_def
proof (induction evs arbitrary: s)
  case Nil
  then show ?case by simp
next
  case (Cons ev evs)
  from step_armed [OF Cons.prems, of ev]
  have s: "flush_timer (step ev s) = Some (flush_interval (step ev s))"
    and i: "flush_interval (step ev s) = flush_interval s" by simp_all
  from Cons.IH [OF s] i show ?case by simp
qed

text \<open>
  C7. A store constructed with a positive flush interval has its timer pending for that
  interval; one constructed with an interval of zero or less has its timer disabled, and
  no sequence of mutations and timer events enables it. When a pending timer fires, the
  flush action is invoked once and the timer is then enabled again for the construction
  interval, so the timer of a store constructed with a positive interval is pending for
  that interval after every sequence of mutations and timer firings.
\<close>

theorem flush_timer_states:
  "(0 < interval \<longrightarrow> flush_timer (new_KeyValueStoreBase interval) = Some interval) \<and>
   (interval \<le> 0 \<longrightarrow> flush_timer (new_KeyValueStoreBase interval) = None) \<and>
   (interval \<le> 0 \<longrightarrow> flush_timer (run evs (new_KeyValueStoreBase interval)) = None) \<and>
   (enabled (flush_timer s) \<longrightarrow>
      flushed (timer_fires s) = flushed s @ [store_map s] \<and>
      flush_timer (timer_fires s) = Some (flush_interval s) \<and>
      store_map (timer_fires s) = store_map s) \<and>
   (\<not> enabled (flush_timer s) \<longrightarrow> timer_fires s = s) \<and>
   (0 < interval \<longrightarrow> flush_timer (run evs (new_KeyValueStoreBase interval)) = Some interval)"
proof -
  have i: "flush_interval (new_KeyValueStoreBase interval) = interval"
    by (simp add: new_KeyValueStoreBase_def Let_def)
  have a: "0 < interval \<longrightarrow> flush_timer (new_KeyValueStoreBase interval) = Some interval"
    by (simp add: new_KeyValueStoreBase_def enableTimer_def)
  have b: "interval \<le> 0 \<longrightarrow> flush_timer (new_KeyValueStoreBase interval) = None"
    by (simp add: new_KeyValueStoreBase_def)
  have c: "interval \<le> 0 \<longrightarrow> flush_timer (run evs (new_KeyValueStoreBase interval)) = None"
    using b run_disabled [of "new_KeyValueStoreBase interval" evs] by (simp add: enabled_def)
  have d: "enabled (flush_timer s) \<longrightarrow>
      flushed (timer_fires s) = flushed s @ [store_map s] \<and>
      flush_timer (timer_fires s) = Some (flush_interval s) \<and>
      store_map (timer_fires s) = store_map s"
    by (simp add: timer_fires_def timer_callback_def flush_def enableTimer_def Let_def)
  have e: "\<not> enabled (flush_timer s) \<longrightarrow> timer_fires s = s"
    by (simp add: timer_fires_def)
  have f: "0 < interval \<longrightarrow> flush_timer (run evs (new_KeyValueStoreBase interval)) = Some interval"
    using a i run_armed [of "new_KeyValueStoreBase interval" evs] by simp
  from a b c d e f show ?thesis by (intro conjI)
qed

theorem flush_timer_states_witness:
  "flush_timer (new_KeyValueStoreBase 5) = Some 5 \<and>
   flush_timer (new_KeyValueStoreBase 0) = None \<and>
   flush_timer (run [AddOrUpdate ''k'' ''v'', TimerFires, Remove ''k''] (new_KeyValueStoreBase 0)) = None \<and>
   flush_timer (run [AddOrUpdate ''k'' ''v'', TimerFires, Remove ''k''] (new_KeyValueStoreBase 5)) = Some 5 \<and>
   enabled (flush_timer (new_KeyValueStoreBase 5)) \<and>
   length (flushed (timer_fires (new_KeyValueStoreBase 5))) = 1 \<and>
   flush_timer (timer_fires (new_KeyValueStoreBase 5)) = Some 5"
proof -
  note p = flush_timer_states [of 5 "[AddOrUpdate ''k'' ''v'', TimerFires, Remove ''k'']" "new_KeyValueStoreBase 5"]
  note z = flush_timer_states [of 0 "[AddOrUpdate ''k'' ''v'', TimerFires, Remove ''k'']" "new_KeyValueStoreBase 0"]
  have i: "flush_interval (new_KeyValueStoreBase 5) = 5" "flushed (new_KeyValueStoreBase 5) = []"
    by (simp_all add: new_KeyValueStoreBase_def)
  from p have 1: "flush_timer (new_KeyValueStoreBase 5) = Some 5" by simp
  from z have 2: "flush_timer (new_KeyValueStoreBase 0) = None" by simp
  from z have 3: "flush_timer (run [AddOrUpdate ''k'' ''v'', TimerFires, Remove ''k''] (new_KeyValueStoreBase 0)) = None"
    by simp
  from p have 4: "flush_timer (run [AddOrUpdate ''k'' ''v'', TimerFires, Remove ''k''] (new_KeyValueStoreBase 5)) = Some 5"
    by simp
  from 1 have 5: "enabled (flush_timer (new_KeyValueStoreBase 5))" by (simp add: enabled_def)
  from p 5 i have 6: "length (flushed (timer_fires (new_KeyValueStoreBase 5))) = 1"
    and 7: "flush_timer (timer_fires (new_KeyValueStoreBase 5)) = Some 5" by simp_all
  from 1 2 3 4 5 6 7 show ?thesis by (intro conjI)
qed

subsection \<open>Iteration\<close>

lemma iterate_noting_Continue:
  assumes "\<And>key val b. fst (cb key val b) = Continue"
  shows "snd (iterate (noting cb) es (a, tr)) = tr @ es"
proof (induction es arbitrary: a tr)
  case Nil
  show ?case by simp
next
  case (Cons e es)
  obtain key val where e: "e = (key, val)" by (cases e)
  obtain r a' where c: "cb key val a = (r, a')" by (cases "cb key val a")
  with assms [of key val a] have r: "r = Continue" by simp
  have "iterate (noting cb) (e # es) (a, tr) = iterate (noting cb) es (a', tr @ [(key, val)])"
    by (simp add: e noting_def c r)
  with Cons.IH [of a' "tr @ [(key, val)]"] show ?case by (simp add: e)
qed

lemma iterate_noting_prefix:
  "\<exists>n\<le>length es. snd (iterate (noting cb) es (a, tr)) = tr @ take n es"
proof (induction es arbitrary: a tr)
  case Nil
  show ?case by simp
next
  case (Cons e es)
  obtain key val where e: "e = (key, val)" by (cases e)
  obtain r a' where c: "cb key val a = (r, a')" by (cases "cb key val a")
  show ?case
  proof (cases r)
    case Break
    then have "snd (iterate (noting cb) (e # es) (a, tr)) = tr @ take 1 (e # es)"
      by (simp add: e noting_def c)
    moreover have "(1::nat) \<le> length (e # es)" by simp
    ultimately show ?thesis by blast
  next
    case Continue
    then have s: "iterate (noting cb) (e # es) (a, tr) = iterate (noting cb) es (a', tr @ [(key, val)])"
      by (simp add: e noting_def c)
    from Cons.IH [of a' "tr @ [(key, val)]"] obtain n
      where n: "n \<le> length es"
        and "snd (iterate (noting cb) es (a', tr @ [(key, val)])) = (tr @ [(key, val)]) @ take n es"
      by blast
    with s have "snd (iterate (noting cb) (e # es) (a, tr)) = tr @ take (Suc n) (e # es)"
      by (simp add: e)
    moreover from n have "Suc n \<le> length (e # es)" by simp
    ultimately show ?thesis by blast
  qed
qed

lemma iterate_noting_Break:
  assumes "es \<noteq> []" "\<And>key val. fst (cb key val a) = Break"
  shows "snd (iterate (noting cb) es (a, [])) = [hd es]"
proof -
  from assms(1) obtain key val es' where es: "es = (key, val) # es'"
    by (cases es) auto
  obtain r a' where c: "cb key val a = (r, a')" by (cases "cb key val a")
  with assms(2) [of key val] have "r = Break" by simp
  with c show ?thesis by (simp add: es noting_def)
qed

lemma enumerates_length:
  assumes "enumerates es m"
  shows "length es = card (dom m)"
proof -
  from assms have m: "m = map_of es" and dist: "distinct (map fst es)"
    by (simp_all add: enumerates_def)
  have "card (set (map fst es)) = length (map fst es)"
    by (rule distinct_card [OF dist])
  then have "card (fst ` set es) = length es" by simp
  then show ?thesis by (simp add: m dom_map_of_conv_image_fst)
qed

lemma count_list_distinct: "distinct xs \<Longrightarrow> x \<in> set xs \<Longrightarrow> count_list xs x = 1"
  by (induction xs) (auto simp: count_list_0_iff)

lemma length_answers: "length (answers cb es a) = length es"
  by (induction es arbitrary: a) auto

lemma iterate_noting_answers:
  "snd (iterate (noting cb) es (a, tr)) =
     tr @ take (Suc (length (takeWhile (\<lambda>r. r = Continue) (answers cb es a)))) es"
proof (induction es arbitrary: a tr)
  case Nil
  show ?case by simp
next
  case (Cons e es)
  obtain key val where e: "e = (key, val)" by (cases e)
  obtain r a' where c: "cb key val a = (r, a')" by (cases "cb key val a")
  show ?case
  proof (cases r)
    case Break
    then show ?thesis by (simp add: e noting_def c)
  next
    case Continue
    then have "iterate (noting cb) (e # es) (a, tr) = iterate (noting cb) es (a', tr @ [(key, val)])"
      by (simp add: e noting_def c)
    with Cons.IH [of a' "tr @ [(key, val)]"] Continue show ?thesis
      by (simp add: e c)
  qed
qed

lemma iterate_cb_run:
  "iterate cb es a =
     cb_run cb (take (Suc (length (takeWhile (\<lambda>r. r = Continue) (answers cb es a)))) es) a"
proof (induction es arbitrary: a)
  case Nil
  show ?case by (simp add: cb_run_def)
next
  case (Cons e es)
  obtain key val where e: "e = (key, val)" by (cases e)
  obtain r a' where c: "cb key val a = (r, a')" by (cases "cb key val a")
  show ?case
  proof (cases r)
    case Break
    then show ?thesis by (simp add: e c cb_run_def)
  next
    case Continue
    with Cons.IH [of a'] show ?thesis by (simp add: e c cb_run_def)
  qed
qed

lemma first_Break_index:
  assumes "i < length rs" "rs ! i = Break" "\<forall>j<i. rs ! j = Continue"
  shows "length (takeWhile (\<lambda>r. r = Continue) rs) = i"
proof -
  have "takeWhile (\<lambda>r. r = Continue) rs = take i rs"
    using assms by (intro takeWhile_eq_take_P_nth) auto
  with assms(1) show ?thesis by simp
qed

text \<open>
  C9. Let the list \<open>es\<close> be the entries of the store in the order of the hash map's
  iterator. \<^verbatim>\<open>iterate\<close> invokes the callback with the entries of \<open>es\<close> in order, once each,
  up to and including the first entry at which the callback returns \<open>Break\<close>, and with no
  entry after it; its effect is that of those calls. So when the callback returns
  \<open>Break\<close> at its call number \<open>i\<close> (counted from zero) and \<open>Continue\<close> before, exactly the
  first \<open>i + 1\<close> entries are visited. When the callback returns \<open>Break\<close> on its first
  invocation and the store has three entries, exactly one entry is visited. When the
  callback always returns \<open>Continue\<close>, the visited entries are all of \<open>es\<close>: every entry
  of the store is visited exactly once.
\<close>

theorem iterate_visits:
  assumes "enumerates es m"
  shows
  "(\<exists>n\<le>length es. visited cb es a = take n es) \<and>
   (card (dom m) = 3 \<and> (\<forall>key val. fst (cb key val a) = Break) \<longrightarrow>
      length es = 3 \<and> visited cb es a = [hd es] \<and> length (visited cb es a) = 1) \<and>
   ((\<forall>key val b. fst (cb key val b) = Continue) \<longrightarrow>
      visited cb es a = es \<and> set (visited cb es a) = Map.graph m \<and>
      (\<forall>key val. m key = Some val \<longrightarrow> count_list (visited cb es a) (key, val) = 1)) \<and>
   visited cb es a =
     take (Suc (length (takeWhile (\<lambda>r. r = Continue) (answers cb es a)))) es \<and>
   iterate cb es a = cb_run cb (visited cb es a) a \<and>
   (\<forall>i. i < length es \<and> answers cb es a ! i = Break \<and>
        (\<forall>j<i. answers cb es a ! j = Continue) \<longrightarrow>
      visited cb es a = take (Suc i) es \<and> length (visited cb es a) = Suc i) \<and>
   ((\<forall>i<length es. answers cb es a ! i = Continue) \<longrightarrow> visited cb es a = es)"
proof -
  from assms have "distinct (map fst es)" by (simp add: enumerates_def)
  then have d: "distinct es" by (simp add: distinct_map)
  have g: "set es = Map.graph m" using assms by (rule enumerates_set)
  have 1: "\<exists>n\<le>length es. visited cb es a = take n es"
    using iterate_noting_prefix [of es cb a "[]"] by (simp add: visited_def)
  have 2: "length es = 3 \<and> visited cb es a = [hd es] \<and> length (visited cb es a) = 1"
    if "card (dom m) = 3 \<and> (\<forall>key val. fst (cb key val a) = Break)"
  proof -
    from that assms have l: "length es = 3" by (simp add: enumerates_length)
    then have "es \<noteq> []" by auto
    with that have "visited cb es a = [hd es]"
      by (simp add: visited_def iterate_noting_Break)
    with l show ?thesis by simp
  qed
  have 3: "visited cb es a = es \<and> set (visited cb es a) = Map.graph m \<and>
      (\<forall>key val. m key = Some val \<longrightarrow> count_list (visited cb es a) (key, val) = 1)"
    if "\<forall>key val b. fst (cb key val b) = Continue"
  proof -
    from that have v: "visited cb es a = es"
      by (simp add: visited_def iterate_noting_Continue)
    have "count_list es (key, val) = 1" if "m key = Some val" for key val
    proof -
      from that g have "(key, val) \<in> set es" by (simp add: in_graphI)
      with d show ?thesis by (rule count_list_distinct)
    qed
    with v g show ?thesis by simp
  qed
  have 4: "visited cb es a =
     take (Suc (length (takeWhile (\<lambda>r. r = Continue) (answers cb es a)))) es"
    using iterate_noting_answers [of cb es a "[]"] by (simp add: visited_def)
  have 5: "iterate cb es a = cb_run cb (visited cb es a) a"
    unfolding 4 by (rule iterate_cb_run)
  have 6: "visited cb es a = take (Suc i) es \<and> length (visited cb es a) = Suc i"
    if "i < length es \<and> answers cb es a ! i = Break \<and> (\<forall>j<i. answers cb es a ! j = Continue)"
    for i
  proof -
    from that have "length (takeWhile (\<lambda>r. r = Continue) (answers cb es a)) = i"
      by (intro first_Break_index) (simp_all add: length_answers)
    with 4 that show ?thesis by simp
  qed
  have 7: "visited cb es a = es" if "\<forall>i<length es. answers cb es a ! i = Continue"
  proof -
    from that have "\<forall>r\<in>set (answers cb es a). r = Continue"
      by (auto simp: in_set_conv_nth length_answers)
    then have "takeWhile (\<lambda>r. r = Continue) (answers cb es a) = answers cb es a"
      by simp
    with 4 show ?thesis by (simp add: length_answers)
  qed
  from 1 2 3 4 5 6 7 show ?thesis by blast
qed

theorem iterate_visits_witness:
  "enumerates [(''b'', ''2''), (''a'', ''1''), (''c'', ''3'')] [''c'' \<mapsto> ''3'', ''a'' \<mapsto> ''1'', ''b'' \<mapsto> ''2''] \<and>
   card (dom [''c'' \<mapsto> ''3'', ''a'' \<mapsto> ''1'', ''b'' \<mapsto> ''2'']) = 3 \<and>
   visited (\<lambda>key val n. (if n = (0::nat) then Break else Continue, Suc n))
     [(''b'', ''2''), (''a'', ''1''), (''c'', ''3'')] 0 = [(''b'', ''2'')] \<and>
   visited (\<lambda>key val n. (Continue, Suc n))
     [(''b'', ''2''), (''a'', ''1''), (''c'', ''3'')] (0::nat) = [(''b'', ''2''), (''a'', ''1''), (''c'', ''3'')] \<and>
   answers (\<lambda>key val n. (if n = Suc 0 then Break else Continue, Suc n))
     [(''b'', ''2''), (''a'', ''1''), (''c'', ''3'')] 0 = [Continue, Break, Continue] \<and>
   visited (\<lambda>key val n. (if n = Suc 0 then Break else Continue, Suc n))
     [(''b'', ''2''), (''a'', ''1''), (''c'', ''3'')] 0 = [(''b'', ''2''), (''a'', ''1'')] \<and>
   iterate (\<lambda>key val n. (if n = Suc 0 then Break else Continue, Suc n))
     [(''b'', ''2''), (''a'', ''1''), (''c'', ''3'')] 0 = 2"
proof -
  have e: "enumerates [(''b'', ''2''), (''a'', ''1''), (''c'', ''3'')]
      [''c'' \<mapsto> ''3'', ''a'' \<mapsto> ''1'', ''b'' \<mapsto> ''2'']"
    by (simp add: enumerates_def)
  have c: "card (dom [''c'' \<mapsto> ''3'', ''a'' \<mapsto> ''1'', ''b'' \<mapsto> ''2'']) = 3"
    by simp
  from iterate_visits [OF e, of "\<lambda>key val n. (if n = (0::nat) then Break else Continue, Suc n)" 0] c
  have 1: "visited (\<lambda>key val n. (if n = (0::nat) then Break else Continue, Suc n))
     [(''b'', ''2''), (''a'', ''1''), (''c'', ''3'')] 0 = [(''b'', ''2'')]"
    by simp
  from iterate_visits [OF e, of "\<lambda>key val n. (Continue, Suc n)" "0::nat"]
  have 2: "visited (\<lambda>key val n. (Continue, Suc n))
     [(''b'', ''2''), (''a'', ''1''), (''c'', ''3'')] (0::nat) = [(''b'', ''2''), (''a'', ''1''), (''c'', ''3'')]"
    by simp
  have r: "answers (\<lambda>key val n. (if n = Suc 0 then Break else Continue, Suc n))
     [(''b'', ''2''), (''a'', ''1''), (''c'', ''3'')] 0 = [Continue, Break, Continue]"
    by simp
  note t = iterate_visits [OF e, of "\<lambda>key val n. (if n = Suc 0 then Break else Continue, Suc n)" 0,
      unfolded r]
  have h: "Suc 0 < length [(''b'', ''2''), (''a'', ''1''), (''c'', ''3'')] \<and>
      [Continue, Break, Continue] ! Suc 0 = Break \<and>
      (\<forall>j<Suc 0. [Continue, Break, Continue] ! j = Continue)"
    by simp
  from t h
  have "visited (\<lambda>key val n. (if n = Suc 0 then Break else Continue, Suc n))
     [(''b'', ''2''), (''a'', ''1''), (''c'', ''3'')] 0 =
     take (Suc (Suc 0)) [(''b'', ''2''), (''a'', ''1''), (''c'', ''3'')]"
    by blast
  then have 3: "visited (\<lambda>key val n. (if n = Suc 0 then Break else Continue, Suc n))
     [(''b'', ''2''), (''a'', ''1''), (''c'', ''3'')] 0 = [(''b'', ''2''), (''a'', ''1'')]"
    by simp
  from t have "iterate (\<lambda>key val n. (if n = Suc 0 then Break else Continue, Suc n))
     [(''b'', ''2''), (''a'', ''1''), (''c'', ''3'')] 0 =
     cb_run (\<lambda>key val n. (if n = Suc 0 then Break else Continue, Suc n))
       (visited (\<lambda>key val n. (if n = Suc 0 then Break else Continue, Suc n))
         [(''b'', ''2''), (''a'', ''1''), (''c'', ''3'')] 0) 0"
    by blast
  then have 4: "iterate (\<lambda>key val n. (if n = Suc 0 then Break else Continue, Suc n))
     [(''b'', ''2''), (''a'', ''1''), (''c'', ''3'')] 0 = 2"
    unfolding 3 by (simp add: cb_run_def)
  from e c 1 2 r 3 4 show ?thesis by (intro conjI)
qed

end
